theory Spec2Isabelle
  imports Complex_Main "HOL-Library.Word" "HOL-Library.Multiset"
begin

unbundle bit_operations_syntax

section \<open>Arrays and errors\<close>

text \<open>
  An array is its shape and its elements in row-major order (what \<open>ravel()\<close> returns).
  A real array holds as many elements as its shape says: \<open>wf_array\<close>.
\<close>

type_synonym u32 = "32 word"
type_synonym u64 = "64 word"

record 'a ndarray =
  shape :: "nat list"
  ravel :: "'a list"

definition asize :: "'a ndarray \<Rightarrow> nat" where
  "asize a = prod_list (shape a)"

definition wf_array :: "'a ndarray \<Rightarrow> bool" where
  "wf_array a = (length (ravel a) = prod_list (shape a))"

datatype error =
  TypeError string
  | ValueError string
  | OverflowError string

text \<open>
  Modelled from the spec: \<open>np.split\<close> (the array library's split) is not among the
  sources; the specification splits the counter array into two equal halves. On a flat
  array \<open>np.split(a, 2)\<close> gives the two halves, and a ValueError when the length is odd.
\<close>

definition np_split2 :: "'a list \<Rightarrow> error + ('a list \<times> 'a list)" where
  "np_split2 xs =
     (if length xs mod 2 = 0
      then Inr (take (length xs div 2) xs, drop (length xs div 2) xs)
      else Inl (ValueError ''array split does not result in an equal division''))"

text \<open>
  Modelled from the spec: \<open>lax.reshape\<close> is not among the sources; the specification
  reshapes the flat word stream into the requested shape. The elements stay in row-major
  order, and a new shape of another size is an error.
\<close>

definition lax_reshape :: "'a list \<Rightarrow> nat list \<Rightarrow> error + 'a ndarray" where
  "lax_reshape xs new_sizes =
     (if prod_list new_sizes = length xs
      then Inr \<lparr>shape = new_sizes, ravel = xs\<rparr>
      else Inl (TypeError ''reshape total size must be unchanged''))"

section \<open>The Threefry-2x32 hash\<close>

text \<open>
  \<open>_make_rotate_left(uint32)\<close>: the rotation amount is converted to uint32 and
  \<open>nbits - d\<close> is computed there; both shifts are logical.
\<close>

definition rotate_left :: "u32 \<Rightarrow> u32 \<Rightarrow> u32" where
  "rotate_left x d = push_bit (unat d) x OR drop_bit (unat (32 - d)) x"

text \<open>\<open>apply_round\<close> works on the list \<open>[x0, x1]\<close> of the two halves, elementwise.\<close>

definition apply_round :: "u32 list \<times> u32 list \<Rightarrow> u32 \<Rightarrow> u32 list \<times> u32 list" where
  "apply_round v rot =
     (let v0 = map2 (+) (fst v) (snd v);
          v1 = map (\<lambda>a. rotate_left a rot) (snd v);
          v1 = map2 (XOR) v0 v1
      in (v0, v1))"

definition rotations :: "u32 list" where
  "rotations = [13, 15, 26, 6, 17, 29, 16, 24]"

text \<open>
  The straight-line body of \<open>threefry_2x32\<close> between the split of the counter and the
  concatenation: key schedule, initial key addition, five groups of four rounds, each
  followed by a key injection.
\<close>

definition threefry_rounds :: "u32 \<times> u32 \<Rightarrow> u32 list \<times> u32 list \<Rightarrow> u32 list \<times> u32 list" where
  "threefry_rounds keypair x =
     (let key1 = fst keypair; key2 = snd keypair;
          ks0 = key1; ks1 = key2; ks2 = key1 XOR key2 XOR 0x1BD11BDA;
          x = (map (\<lambda>a. a + ks0) (fst x), map (\<lambda>a. a + ks1) (snd x));
          x = foldl apply_round x (take 4 rotations);
          x = (map (\<lambda>a. a + ks1) (fst x), map (\<lambda>a. a + ks2 + 1) (snd x));
          x = foldl apply_round x (drop 4 rotations);
          x = (map (\<lambda>a. a + ks2) (fst x), map (\<lambda>a. a + ks0 + 2) (snd x));
          x = foldl apply_round x (take 4 rotations);
          x = (map (\<lambda>a. a + ks0) (fst x), map (\<lambda>a. a + ks1 + 3) (snd x));
          x = foldl apply_round x (drop 4 rotations);
          x = (map (\<lambda>a. a + ks1) (fst x), map (\<lambda>a. a + ks2 + 4) (snd x));
          x = foldl apply_round x (take 4 rotations);
          x = (map (\<lambda>a. a + ks2) (fst x), map (\<lambda>a. a + ks0 + 5) (snd x))
      in x)"

text \<open>
  \<open>threefry_2x32(keypair, count)\<close>. The dtype check of the source holds by typing: key
  words and counters are 32-bit words. \<open>count.size\<close> is the product of the shape.
\<close>

definition threefry_2x32 :: "u32 \<times> u32 \<Rightarrow> u32 ndarray \<Rightarrow> error + u32 ndarray" where
  "threefry_2x32 keypair cnt =
     (let odd_size = asize cnt mod 2;
          flat = (if odd_size \<noteq> 0 then ravel cnt @ [0] else ravel cnt)
      in case np_split2 flat of
           Inl e \<Rightarrow> Inl e
         | Inr x \<Rightarrow>
             (let x = threefry_rounds keypair x;
                  out = fst x @ snd x
              in lax_reshape (if odd_size \<noteq> 0 then butlast out else out) (shape cnt)))"

subsection \<open>The round specification, word by word\<close>

text \<open>
  The schedule as the specification writes it, on one pair \<open>(x0, x1)\<close> of words: three
  round keys, the initial key addition, five groups of four rounds with the rotation
  groups alternating, and after group \<open>g\<close> the injection of the next key pair in
  round-robin order with \<open>g\<close> added to the second word.
\<close>

definition spec_rotate_left :: "u32 \<Rightarrow> nat \<Rightarrow> u32" where
  "spec_rotate_left x d = push_bit d x OR drop_bit (32 - d) x"

definition spec_mix :: "nat \<Rightarrow> u32 \<times> u32 \<Rightarrow> u32 \<times> u32" where
  "spec_mix r p = (let x0 = fst p + snd p in (x0, spec_rotate_left (snd p) r XOR x0))"

definition spec_round_keys :: "u32 \<Rightarrow> u32 \<Rightarrow> u32 list" where
  "spec_round_keys k0 k1 = [k0, k1, k0 XOR k1 XOR 0x1BD11BDA]"

definition spec_group_rotations :: "nat \<Rightarrow> nat list" where
  "spec_group_rotations g = (if odd g then [13, 15, 26, 6] else [17, 29, 16, 24])"

definition spec_inject :: "u32 list \<Rightarrow> nat \<Rightarrow> u32 \<times> u32 \<Rightarrow> u32 \<times> u32" where
  "spec_inject ks g p = (fst p + ks ! (g mod 3), snd p + (ks ! ((g + 1) mod 3) + of_nat g))"

definition spec_group :: "u32 list \<Rightarrow> u32 \<times> u32 \<Rightarrow> nat \<Rightarrow> u32 \<times> u32" where
  "spec_group ks p g = spec_inject ks g (foldl (\<lambda>q r. spec_mix r q) p (spec_group_rotations g))"

definition spec_threefry_pair :: "u32 \<Rightarrow> u32 \<Rightarrow> u32 \<times> u32 \<Rightarrow> u32 \<times> u32" where
  "spec_threefry_pair k0 k1 p =
     (let ks = spec_round_keys k0 k1
      in foldl (spec_group ks) (fst p + ks ! 0, snd p + ks ! 1) [1, 2, 3, 4, 5])"

text \<open>
  On a counter array: pad with one zero word when the count is odd, pair word \<open>i\<close> of the
  first half with word \<open>i\<close> of the second half, hash each pair, concatenate the two
  halves again and drop the padding word.
\<close>

definition spec_threefry :: "u32 \<Rightarrow> u32 \<Rightarrow> u32 list \<Rightarrow> u32 list" where
  "spec_threefry k0 k1 cs =
     (let padded = (if odd (length cs) then cs @ [0] else cs);
          h = length padded div 2;
          ps = map (spec_threefry_pair k0 k1) (zip (take h padded) (drop h padded))
      in take (length cs) (map fst ps @ map snd ps))"

section \<open>Keys: creation, splitting, folding in\<close>

text \<open>
  A key is its two words. \<open>PRNGKey\<close> on a raw integer seed: the seed is a 64-bit (or
  padded 32-bit) integer, \<open>onp.right_shift\<close> is the arithmetic shift of numpy on signed
  integers, and both halves are converted to uint32.
\<close>

type_synonym key = "u32 \<times> u32"



text \<open>
  Modelled from the spec: \<open>lax.iota\<close> is not among the sources; the specification builds
  the counter array \<open>0 .. n-1\<close> of 32-bit unsigned words. A negative size is an error.
\<close>

definition lax_iota :: "int \<Rightarrow> error + u32 ndarray" where
  "lax_iota n =
     (if n < 0 then Inl (ValueError ''negative dimensions are not allowed'')
      else Inr \<lparr>shape = [nat n], ravel = map of_nat [0..<nat n]\<rparr>)"

text \<open>\<open>_split(key, num)\<close>; \<open>num\<close> is a Python integer.\<close>

definition split :: "key \<Rightarrow> int \<Rightarrow> error + u32 ndarray" where
  "split k num =
     (case lax_iota (num * 2) of
        Inl e \<Rightarrow> Inl e
      | Inr counts \<Rightarrow>
          (case threefry_2x32 k counts of
             Inl e \<Rightarrow> Inl e
           | Inr out \<Rightarrow> lax_reshape (ravel out) [nat num, 2]))"


text \<open>
  The rows of an array of shape \<open>(n, 2)\<close>, as keys: what iterating over the result of
  \<open>split\<close> yields. \<open>k1, k2 = split(key)\<close> needs exactly two rows.
\<close>

definition rows2 :: "u32 ndarray \<Rightarrow> error + key list" where
  "rows2 a =
     (case shape a of
        [n, m] \<Rightarrow>
          (if m = 2 \<and> length (ravel a) = n * 2
           then Inr (map (\<lambda>i. (ravel a ! (2 * i), ravel a ! (2 * i + 1))) [0..<n])
           else Inl (ValueError ''rows are not keys''))
      | _ \<Rightarrow> Inl (ValueError ''not an array of keys''))"

definition split_pair :: "key \<Rightarrow> error + (key \<times> key)" where
  "split_pair k =
     (case split k 2 of
        Inl e \<Rightarrow> Inl e
      | Inr a \<Rightarrow>
          (case rows2 a of
             Inl e \<Rightarrow> Inl e
           | Inr [k1, k2] \<Rightarrow> Inr (k1, k2)
           | Inr _ \<Rightarrow> Inl (ValueError ''wrong number of values to unpack'')))"

section \<open>Bit extraction\<close>

text \<open>
  What \<open>_random_bits\<close> can be handed as a key: any Python value. An array has a dtype, a
  shape and its elements, here as the unsigned value of each element's bit pattern; any
  other object has no \<open>shape\<close> attribute, and \<open>_is_prng_key\<close> answers \<open>False\<close> on the
  AttributeError.
\<close>

datatype dtype =
  Bool | Int8 | Int16 | Int32 | Int64 | UInt8 | UInt16 | UInt32 | UInt64
  | Float16 | Float32 | Float64

datatype pyvalue =
  PyObject
  | PyArray dtype "nat list" "nat list"

fun is_prng_key :: "pyvalue \<Rightarrow> bool" where
  "is_prng_key PyObject = False"
| "is_prng_key (PyArray dt shp els) = (shp = [2] \<and> dt = UInt32)"

definition key_value :: "key \<Rightarrow> pyvalue" where
  "key_value k = PyArray UInt32 [2] [unat (fst k), unat (snd k)]"

text \<open>\<open>key1, key2 = keypair\<close> at the head of \<open>threefry_2x32\<close>, on such a value.\<close>

fun unpack_keypair :: "pyvalue \<Rightarrow> error + key" where
  "unpack_keypair (PyArray dt shp [a, b]) = Inr (of_nat a, of_nat b)"
| "unpack_keypair _ = Inl (ValueError ''wrong number of values to unpack'')"

text \<open>
  \<open>onp.prod(shape)\<close> multiplies in 64-bit signed integers and wraps around silently; so
  does the product with \<open>bit_width // 32\<close>.
\<close>

definition onp_prod :: "nat list \<Rightarrow> 64 word" where
  "onp_prod shp = of_nat (prod_list shp)"

definition uint32_max :: int where
  "uint32_max = 4294967295"

text \<open>
  \<open>_random_bits(key, bit_width, shape)\<close>. The result holds the unsigned value of each
  element: of a uint32 word, or of the uint64 word \<open>(bits[0] << 32) | bits[1]\<close> made from
  word \<open>i\<close> of the first half and word \<open>i\<close> of the second half of the hash output.
\<close>

definition random_bits :: "pyvalue \<Rightarrow> int \<Rightarrow> nat list \<Rightarrow> error + nat ndarray" where
  "random_bits k bit_width shp =
     (if \<not> is_prng_key k then Inl (TypeError ''_random_bits got invalid prng key.'')
      else if bit_width \<notin> {32, 64} then Inl (TypeError ''requires 32- or 64-bit field width.'')
      else
        (let max_count = sint (of_int (bit_width div 32) * onp_prod shp)
         in if max_count \<ge> uint32_max
            then Inl (TypeError ''requesting more random bits than a single call provides.'')
            else
              (case lax_iota max_count of
                 Inl e \<Rightarrow> Inl e
               | Inr counts \<Rightarrow>
                   (case unpack_keypair k of
                      Inl e \<Rightarrow> Inl e
                    | Inr kp \<Rightarrow>
                        (case threefry_2x32 kp counts of
                           Inl e \<Rightarrow> Inl e
                         | Inr bits \<Rightarrow>
                             (if bit_width = 64
                              then
                                (case np_split2 (ravel bits) of
                                   Inl e \<Rightarrow> Inl e
                                 | Inr halves \<Rightarrow>
                                     lax_reshape
                                       (map2 (\<lambda>h l. unat (push_bit 32 (ucast h :: u64) OR ucast l))
                                          (fst halves) (snd halves))
                                       shp)
                              else lax_reshape (map unat (ravel bits)) shp))))))"

section \<open>Bounded integers\<close>

text \<open>
  Integer dtypes: their width and signedness (\<open>onp.iinfo(dtype).bits\<close>; \<open>Bool\<close> and the
  floating dtypes are not integer dtypes).
\<close>

fun iinfo_bits :: "dtype \<Rightarrow> nat option" where
  "iinfo_bits Int8 = Some 8"
| "iinfo_bits Int16 = Some 16"
| "iinfo_bits Int32 = Some 32"
| "iinfo_bits Int64 = Some 64"
| "iinfo_bits UInt8 = Some 8"
| "iinfo_bits UInt16 = Some 16"
| "iinfo_bits UInt32 = Some 32"
| "iinfo_bits UInt64 = Some 64"
| "iinfo_bits _ = None"

fun is_signed :: "dtype \<Rightarrow> bool" where
  "is_signed Int8 = True"
| "is_signed Int16 = True"
| "is_signed Int32 = True"
| "is_signed Int64 = True"
| "is_signed _ = False"

text \<open>
  Modelled from the spec: \<open>lax.convert_element_type\<close> and the elementwise arithmetic of
  \<open>lax\<close> are not among the sources; the specification has all integer arithmetic modulo
  \<open>2 ^ nbits\<close>. Values of an integer dtype are integers in its range; arithmetic in the
  dtype and conversion to it wrap around (two's complement for the signed ones).
\<close>

definition wrap_unsigned :: "nat \<Rightarrow> int \<Rightarrow> int" where
  "wrap_unsigned nbits v = v mod 2 ^ nbits"

definition wrap_signed :: "nat \<Rightarrow> int \<Rightarrow> int" where
  "wrap_signed nbits v = (v + 2 ^ (nbits - 1)) mod 2 ^ nbits - 2 ^ (nbits - 1)"

definition convert_element_type :: "dtype \<Rightarrow> int \<Rightarrow> int" where
  "convert_element_type dt v =
     (case iinfo_bits dt of
        None \<Rightarrow> v
      | Some nbits \<Rightarrow> if is_signed dt then wrap_signed nbits v else wrap_unsigned nbits v)"

text \<open>
  The multiplier of \<open>_randint\<close>, in the unsigned dtype of \<open>nbits\<close> bits: \<open>lax.mul\<close> wraps
  around, \<open>lax.rem\<close> is the remainder. (XLA leaves the remainder by zero to the
  implementation; \<open>mod\<close> by zero returns the dividend, and no statement below rests on
  it.)
\<close>

definition randint_multiplier :: "nat \<Rightarrow> nat \<Rightarrow> nat" where
  "randint_multiplier nbits spn =
     (let multiplier = 2 ^ 16 mod spn;
          multiplier = ((multiplier * multiplier) mod 2 ^ nbits) mod spn;
          multiplier = (if nbits = 64 then ((multiplier * multiplier) mod 2 ^ nbits) mod spn
                        else multiplier)
      in multiplier)"

text \<open>
  \<open>_randint(key, shape, minval, maxval, dtype)\<close> with scalar bounds. The random offset is
  computed in the unsigned dtype, element by element.
\<close>

definition randint :: "key \<Rightarrow> nat list \<Rightarrow> int \<Rightarrow> int \<Rightarrow> dtype \<Rightarrow> error + int ndarray" where
  "randint k shp minval maxval dt =
     (case iinfo_bits dt of
        None \<Rightarrow> Inl (TypeError ''randint only accepts integer dtypes.'')
      | Some nbits \<Rightarrow>
          (let minval = convert_element_type dt minval;
               maxval = convert_element_type dt maxval
           in if nbits \<notin> {32, 64}
              then Inl (TypeError ''randint only accepts 32- or 64-bit dtypes.'')
              else
                (let maxval = max (convert_element_type dt (minval + 1)) maxval
                 in case split_pair k of
                      Inl e \<Rightarrow> Inl e
                    | Inr ks \<Rightarrow>
                        (case random_bits (key_value (fst ks)) (int nbits) shp of
                           Inl e \<Rightarrow> Inl e
                         | Inr higher_bits \<Rightarrow>
                             (case random_bits (key_value (snd ks)) (int nbits) shp of
                                Inl e \<Rightarrow> Inl e
                              | Inr lower_bits \<Rightarrow>
                                  (let spn = nat (wrap_unsigned nbits
                                                (convert_element_type dt (maxval - minval)));
                                       multiplier = randint_multiplier nbits spn;
                                       random_offset =
                                         map2 (\<lambda>h l. ((((h mod spn) * multiplier) mod 2 ^ nbits)
                                                        + l mod spn) mod 2 ^ nbits)
                                           (ravel higher_bits) (ravel lower_bits);
                                       random_offset = map (\<lambda>x. x mod spn) random_offset
                                   in Inr \<lparr>shape = shp,
                                           ravel = map (\<lambda>x. convert_element_type dt
                                                     (minval + convert_element_type dt (int x)))
                                                     random_offset\<rparr>))))))"

text \<open>The least and the largest value of an integer dtype (\<open>onp.iinfo(dtype).min\<close>, \<open>.max\<close>).\<close>

definition dtype_min :: "dtype \<Rightarrow> int" where
  "dtype_min dt =
     (case iinfo_bits dt of
        None \<Rightarrow> 0
      | Some nbits \<Rightarrow> if is_signed dt then - (2 ^ (nbits - 1)) else 0)"

definition dtype_max :: "dtype \<Rightarrow> int" where
  "dtype_max dt =
     (case iinfo_bits dt of
        None \<Rightarrow> 0
      | Some nbits \<Rightarrow> if is_signed dt then 2 ^ (nbits - 1) - 1 else 2 ^ nbits - 1)"

section \<open>Shuffle\<close>

text \<open>
  Along axis \<open>a\<close> of a row-major array of shape \<open>shp\<close>, with \<open>n = shp ! a\<close> and
  \<open>inner\<close> the product of the later dimensions, lane \<open>(o, j)\<close> holds the elements at
  the flat indices \<open>(o * n + i) * inner + j\<close> for \<open>i < n\<close>.
\<close>

definition lane :: "nat \<Rightarrow> nat \<Rightarrow> 'a list \<Rightarrow> nat \<Rightarrow> nat \<Rightarrow> 'a list" where
  "lane n inner xs out j = map (\<lambda>i. xs ! ((out * n + i) * inner + j)) [0..<n]"

definition axis_len :: "nat list \<Rightarrow> nat \<Rightarrow> nat" where
  "axis_len shp a = shp ! a"

definition axis_inner :: "nat list \<Rightarrow> nat \<Rightarrow> nat" where
  "axis_inner shp a = prod_list (drop (Suc a) shp)"

definition axis_outer :: "nat list \<Rightarrow> nat \<Rightarrow> nat" where
  "axis_outer shp a = prod_list (take a shp)"

text \<open>
  Modelled from the spec: \<open>lax.sort_key_val\<close> is not among the sources; the specification
  calls it a stable sort-by-key primitive along an axis. Every lane of the values is
  reordered by the stable sort of the same lane of the keys (\<open>sort_key\<close> is stable
  insertion sort); operands of different shapes and an axis outside the shape are errors.
\<close>

definition sort_lane :: "nat \<Rightarrow> nat \<Rightarrow> nat list \<Rightarrow> 'a list \<Rightarrow> nat \<Rightarrow> nat \<Rightarrow> (nat \<times> 'a) list" where
  "sort_lane n inner ks vs out j = sort_key fst (zip (lane n inner ks out j) (lane n inner vs out j))"

definition sort_along :: "nat \<Rightarrow> nat \<Rightarrow> nat list \<Rightarrow> 'a list \<Rightarrow> (nat \<times> 'a) list" where
  "sort_along n inner ks vs =
     map (\<lambda>p. sort_lane n inner ks vs (p div (n * inner)) (p mod inner) ! ((p div inner) mod n))
       [0..<length vs]"

definition lax_sort_key_val ::
  "nat ndarray \<Rightarrow> 'a ndarray \<Rightarrow> nat \<Rightarrow> error + (nat ndarray \<times> 'a ndarray)" where
  "lax_sort_key_val keys vals dimension =
     (if shape keys \<noteq> shape vals \<or> length (ravel keys) \<noteq> length (ravel vals)
      then Inl (TypeError ''sort_key_val: keys and values of different shapes'')
      else if dimension \<ge> length (shape vals)
      then Inl (ValueError ''sort_key_val: dimension out of range'')
      else
        (let kv = sort_along (axis_len (shape vals) dimension) (axis_inner (shape vals) dimension)
                    (ravel keys) (ravel vals)
         in Inr (\<lparr>shape = shape keys, ravel = map fst kv\<rparr>,
                 \<lparr>shape = shape vals, ravel = map snd kv\<rparr>)))"

text \<open>
  \<open>int(onp.ceil(3 * onp.log(x.size) / onp.log(uint32max)))\<close>. For a size of zero the
  logarithm is minus infinity and \<open>int\<close> raises OverflowError. For a positive size the
  value is the least \<open>r\<close> with \<open>size ^ 3 \<le> (2 ^ 32 - 1) ^ r\<close>, found here by counting up;
  \<open>num_rounds_ceiling\<close> below shows that it is the ceiling of the quotient of
  logarithms. (The source evaluates the quotient in 64-bit floats, which can only differ
  where the quotient is an integer: at size 1, where both logarithms are exact, and at
  sizes from \<open>2 ^ 32 - 1\<close> on, which the bit extraction refuses.)
\<close>

function ceil_log :: "nat \<Rightarrow> nat \<Rightarrow> nat" where
  "ceil_log r t = (if 4294967295 ^ r < t then ceil_log (Suc r) t else r)"
  by pat_completeness auto
termination
proof (relation "measure (\<lambda>(r, t). t - 4294967295 ^ r)")
  show "wf (measure (\<lambda>(r, t). t - 4294967295 ^ r))"
    by simp
next
  fix r t :: nat
  assume a: "4294967295 ^ r < t"
  have "(4294967295::nat) ^ r < 4294967295 ^ Suc r"
    by (rule power_strict_increasing) simp_all
  then have "t - 4294967295 ^ Suc r < t - 4294967295 ^ r"
    using a by (rule diff_less_mono2)
  then show "((Suc r, t), (r, t)) \<in> measure (\<lambda>(r, t). t - 4294967295 ^ r)"
    by simp
qed

declare ceil_log.simps [simp del]

definition num_rounds :: "nat \<Rightarrow> error + nat" where
  "num_rounds sz =
     (if sz = 0 then Inl (OverflowError ''cannot convert float infinity to integer'')
      else Inr (ceil_log 0 (sz ^ 3)))"

text \<open>
  \<open>_shuffle(key, x, axis)\<close>: each round splits the key, keeps the first child as the next
  key, draws 32-bit sort keys of the shape of \<open>x\<close> from the second child and sorts \<open>x\<close>
  by them along \<open>axis\<close>.
\<close>

fun shuffle_rounds :: "nat \<Rightarrow> key \<Rightarrow> 'a ndarray \<Rightarrow> nat \<Rightarrow> error + 'a ndarray" where
  "shuffle_rounds 0 k x axis = Inr x"
| "shuffle_rounds (Suc r) k x axis =
     (case split_pair k of
        Inl e \<Rightarrow> Inl e
      | Inr ks \<Rightarrow>
          (case random_bits (key_value (snd ks)) 32 (shape x) of
             Inl e \<Rightarrow> Inl e
           | Inr sort_keys \<Rightarrow>
               (case lax_sort_key_val sort_keys x axis of
                  Inl e \<Rightarrow> Inl e
                | Inr kv \<Rightarrow> shuffle_rounds r (fst ks) (snd kv) axis)))"

definition shuffle :: "key \<Rightarrow> 'a ndarray \<Rightarrow> nat \<Rightarrow> error + 'a ndarray" where
  "shuffle k x axis =
     (case num_rounds (asize x) of
        Inl e \<Rightarrow> Inl e
      | Inr r \<Rightarrow> shuffle_rounds r k x axis)"

section \<open>Uniform floats\<close>






section \<open>Normal and gamma variates\<close>










section \<open>Properties of the hash\<close>

subsection \<open>The source computes the round specification\<close>

lemma map2_same: "map2 f (map g ps) (map h ps) = map (\<lambda>p. f (g p) (h p)) ps"
  by (induction ps) simp_all

lemma rotate_left_spec:
  "r \<in> {13, 15, 26, 6, 17, 29, 16, 24} \<Longrightarrow> rotate_left x (of_nat r) = spec_rotate_left x r"
  unfolding rotate_left_def spec_rotate_left_def by auto

text \<open>The rotation built from the two shifts is the rotation of 32-bit words to the left.\<close>

lemma spec_rotate_left_rotl:
  assumes "0 < d" and "d < 32"
  shows "spec_rotate_left x d = word_rotl d x"
proof (rule bit_word_eqI)
  fix n
  assume "n < LENGTH(32)"
  then have n: "n < 32" by simp
  have dm: "d mod 32 = d" using assms by simp
  have L: "bit (spec_rotate_left x d) n
           = ((d \<le> n \<and> bit x (n - d)) \<or> bit x (32 - d + n))"
    using n by (simp add: spec_rotate_left_def bit_or_iff bit_push_bit_iff bit_drop_bit_eq)
  have R: "bit (word_rotl d x) n = bit x ((n + (32 - d)) mod 32)"
    using n by (simp add: bit_word_rotl_iff dm)
  show "bit (spec_rotate_left x d) n = bit (word_rotl d x) n"
  proof (cases "d \<le> n")
    case True
    have "n + (32 - d) = 32 + (n - d)" using True assms by arith
    then have e: "(n + (32 - d)) mod 32 = n - d"
      using n by (simp only: mod_add_self1) simp
    have "\<not> bit x (32 - d + n)"
    proof
      assume "bit x (32 - d + n)"
      then have "32 - d + n < LENGTH(32)" by (rule bit_imp_le_length)
      then show False using True assms by simp
    qed
    then show ?thesis using True by (simp only: L R e) simp
  next
    case False
    have "n + (32 - d) < 32" using False assms by arith
    then have e: "(n + (32 - d)) mod 32 = 32 - d + n" by simp
    show ?thesis using False by (simp only: L R e) simp
  qed
qed

lemma apply_round_pairs:
  assumes "r \<in> {13, 15, 26, 6, 17, 29, 16, 24}"
  shows "apply_round (map fst ps, map snd ps) (of_nat r)
         = (map fst (map (spec_mix r) ps), map snd (map (spec_mix r) ps))"
proof -
  have "map2 (+) (map fst ps) (map snd ps) = map (\<lambda>p. fst p + snd p) ps"
    by (rule map2_same)
  moreover have "map2 (XOR) (map (\<lambda>p. fst p + snd p) ps) (map (\<lambda>a. rotate_left a (of_nat r)) (map snd ps))
                 = map (\<lambda>p. (fst p + snd p) XOR spec_rotate_left (snd p) r) ps"
    using assms by (simp only: map_map o_def map2_same rotate_left_spec)
  ultimately show ?thesis
    by (simp add: apply_round_def spec_mix_def Let_def o_def xor.commute)
qed

lemma foldl_apply_round_pairs:
  "set rs \<subseteq> {13, 15, 26, 6, 17, 29, 16, 24} \<Longrightarrow>
   foldl apply_round (map fst ps, map snd ps) (map of_nat rs)
     = (map fst (map (\<lambda>p. foldl (\<lambda>q r. spec_mix r q) p rs) ps), map snd (map (\<lambda>p. foldl (\<lambda>q r. spec_mix r q) p rs) ps))"
proof (induction rs arbitrary: ps)
  case Nil
  then show ?case by simp
next
  case (Cons r rs)
  have "foldl apply_round (map fst ps, map snd ps) (map of_nat (r # rs))
        = foldl apply_round (map fst (map (spec_mix r) ps), map snd (map (spec_mix r) ps)) (map of_nat rs)"
    using Cons.prems by (simp add: apply_round_pairs)
  also have "\<dots> = (map fst (map (\<lambda>p. foldl (\<lambda>q r. spec_mix r q) p rs) (map (spec_mix r) ps)),
                    map snd (map (\<lambda>p. foldl (\<lambda>q r. spec_mix r q) p rs) (map (spec_mix r) ps)))"
    using Cons.prems by (intro Cons.IH) simp
  finally show ?case by (simp add: o_def)
qed

lemma group_rotations:
  "take 4 rotations = map of_nat (spec_group_rotations 1)"
  "take 4 rotations = map of_nat (spec_group_rotations 3)"
  "take 4 rotations = map of_nat (spec_group_rotations 5)"
  "drop 4 rotations = map of_nat (spec_group_rotations 2)"
  "drop 4 rotations = map of_nat (spec_group_rotations 4)"
  by (simp_all add: rotations_def spec_group_rotations_def)

lemma group_pairs:
  assumes "rs = map of_nat (spec_group_rotations g)"
    and "ka = ks ! (g mod 3)" and "kb + c = ks ! ((g + 1) mod 3) + of_nat g"
  shows "(map (\<lambda>a. a + ka) (fst (foldl apply_round (map fst ps, map snd ps) rs)),
          map (\<lambda>a. a + kb + c) (snd (foldl apply_round (map fst ps, map snd ps) rs)))
         = (map fst (map (\<lambda>p. spec_group ks p g) ps), map snd (map (\<lambda>p. spec_group ks p g) ps))"
proof -
  have "set (spec_group_rotations g) \<subseteq> {13, 15, 26, 6, 17, 29, 16, 24}"
    by (simp add: spec_group_rotations_def)
  then have "foldl apply_round (map fst ps, map snd ps) rs
     = (map fst (map (\<lambda>p. foldl (\<lambda>q r. spec_mix r q) p (spec_group_rotations g)) ps),
        map snd (map (\<lambda>p. foldl (\<lambda>q r. spec_mix r q) p (spec_group_rotations g)) ps))"
    unfolding assms(1) by (rule foldl_apply_round_pairs)
  moreover have "a + kb + c = a + (ks ! ((g + 1) mod 3) + of_nat g)" for a
    using assms(3) by (simp add: add.assoc)
  ultimately show ?thesis
    by (simp add: spec_group_def spec_inject_def o_def assms(2))
qed


lemma threefry_rounds_pairs:
  "threefry_rounds (k0, k1) (map fst ps, map snd ps)
     = (map fst (map (spec_threefry_pair k0 k1) ps), map snd (map (spec_threefry_pair k0 k1) ps))"
proof -
  define ks where "ks = spec_round_keys k0 k1"
  define k2 where "k2 = k0 XOR k1 XOR 0x1BD11BDA"
  define G where "G g qs = map (\<lambda>p. spec_group ks p g) qs" for g and qs :: "(u32 \<times> u32) list"
  define p0 where "p0 = map (\<lambda>p. (fst p + k0, snd p + k1)) ps"
  have ks: "ks ! 0 = k0" "ks ! 1 = k1" "ks ! 2 = k2" "ks ! Suc 0 = k1" "ks ! Suc (Suc 0) = k2"
    by (simp_all add: ks_def k2_def spec_round_keys_def)
  have start: "(map (\<lambda>a. a + k0) (map fst ps), map (\<lambda>a. a + k1) (map snd ps)) = (map fst p0, map snd p0)"
    by (simp add: p0_def o_def)
  have g1: "(map (\<lambda>a. a + k1) (fst (foldl apply_round (map fst qs, map snd qs) (take 4 rotations))),
             map (\<lambda>a. a + k2 + 1) (snd (foldl apply_round (map fst qs, map snd qs) (take 4 rotations))))
            = (map fst (G 1 qs), map snd (G 1 qs))" for qs
    unfolding G_def by (rule group_pairs [OF group_rotations(1)]) (simp_all add: ks)
  have g2: "(map (\<lambda>a. a + k2) (fst (foldl apply_round (map fst qs, map snd qs) (drop 4 rotations))),
             map (\<lambda>a. a + k0 + 2) (snd (foldl apply_round (map fst qs, map snd qs) (drop 4 rotations))))
            = (map fst (G 2 qs), map snd (G 2 qs))" for qs
    unfolding G_def by (rule group_pairs [OF group_rotations(4)]) (simp_all add: ks)
  have g3: "(map (\<lambda>a. a + k0) (fst (foldl apply_round (map fst qs, map snd qs) (take 4 rotations))),
             map (\<lambda>a. a + k1 + 3) (snd (foldl apply_round (map fst qs, map snd qs) (take 4 rotations))))
            = (map fst (G 3 qs), map snd (G 3 qs))" for qs
    unfolding G_def by (rule group_pairs [OF group_rotations(2)]) (simp_all add: ks)
  have g4: "(map (\<lambda>a. a + k1) (fst (foldl apply_round (map fst qs, map snd qs) (drop 4 rotations))),
             map (\<lambda>a. a + k2 + 4) (snd (foldl apply_round (map fst qs, map snd qs) (drop 4 rotations))))
            = (map fst (G 4 qs), map snd (G 4 qs))" for qs
    unfolding G_def by (rule group_pairs [OF group_rotations(5)]) (simp_all add: ks)
  have g5: "(map (\<lambda>a. a + k2) (fst (foldl apply_round (map fst qs, map snd qs) (take 4 rotations))),
             map (\<lambda>a. a + k0 + 5) (snd (foldl apply_round (map fst qs, map snd qs) (take 4 rotations))))
            = (map fst (G 5 qs), map snd (G 5 qs))" for qs
    unfolding G_def by (rule group_pairs [OF group_rotations(3)]) (simp_all add: ks)
  have "threefry_rounds (k0, k1) (map fst ps, map snd ps)
        = (map fst (G 5 (G 4 (G 3 (G 2 (G 1 p0))))), map snd (G 5 (G 4 (G 3 (G 2 (G 1 p0))))))"
    unfolding threefry_rounds_def Let_def fst_conv snd_conv k2_def [symmetric]
    by (simp only: start g1 g2 g3 g4 g5)
  also have "G 5 (G 4 (G 3 (G 2 (G 1 p0)))) = map (spec_threefry_pair k0 k1) ps"
    by (simp add: G_def p0_def spec_threefry_pair_def ks_def [symmetric] ks o_def Let_def)
  finally show ?thesis .
qed

lemma halves_pairs:
  assumes "even (length xs)"
  shows "take (length xs div 2) xs = map fst (zip (take (length xs div 2) xs) (drop (length xs div 2) xs))"
    and "drop (length xs div 2) xs = map snd (zip (take (length xs div 2) xs) (drop (length xs div 2) xs))"
proof -
  from assms have "length (take (length xs div 2) xs) = length (drop (length xs div 2) xs)"
    by (auto elim!: evenE)
  then show "take (length xs div 2) xs = map fst (zip (take (length xs div 2) xs) (drop (length xs div 2) xs))"
    and "drop (length xs div 2) xs = map snd (zip (take (length xs div 2) xs) (drop (length xs div 2) xs))"
    by simp_all
qed

lemma threefry_rounds_halves:
  assumes "even (length xs)"
  shows "threefry_rounds (k0, k1) (take (length xs div 2) xs, drop (length xs div 2) xs)
     = (map fst (map (spec_threefry_pair k0 k1) (zip (take (length xs div 2) xs) (drop (length xs div 2) xs))),
        map snd (map (spec_threefry_pair k0 k1) (zip (take (length xs div 2) xs) (drop (length xs div 2) xs))))"
  using threefry_rounds_pairs [of k0 k1 "zip (take (length xs div 2) xs) (drop (length xs div 2) xs)"]
    halves_pairs [OF assms] by simp

lemma length_threefry_out:
  assumes "even (length xs)"
  shows "length (fst (threefry_rounds (k0, k1) (take (length xs div 2) xs, drop (length xs div 2) xs))
       @ snd (threefry_rounds (k0, k1) (take (length xs div 2) xs, drop (length xs div 2) xs))) = length xs"
  using assms by (auto simp: threefry_rounds_halves elim!: evenE)


lemma np_split2_even:
  "even (length xs) \<Longrightarrow> np_split2 xs = Inr (take (length xs div 2) xs, drop (length xs div 2) xs)"
  by (simp add: np_split2_def even_iff_mod_2_eq_zero)

lemma threefry_2x32_spec:
  assumes "wf_array cnt"
  shows "threefry_2x32 (k0, k1) cnt = Inr \<lparr>shape = shape cnt, ravel = spec_threefry k0 k1 (ravel cnt)\<rparr>"
proof -
  define cs where "cs = ravel cnt"
  define flat where "flat = (if odd (length cs) then cs @ [0] else cs)"
  define h where "h = length flat div 2"
  define qs where "qs = map (spec_threefry_pair k0 k1) (zip (take h flat) (drop h flat))"
  define outl where "outl = map fst qs @ map snd qs"
  have n: "asize cnt = length cs"
    using assms by (simp add: wf_array_def asize_def cs_def)
  have ev: "even (length flat)"
    by (simp add: flat_def)
  have len: "length outl = length flat"
    using ev by (auto simp: outl_def qs_def h_def elim!: evenE)
  have rounds: "threefry_rounds (k0, k1) (take h flat, drop h flat) = (map fst qs, map snd qs)"
    unfolding h_def qs_def by (rule threefry_rounds_halves [OF ev])
  have spec: "spec_threefry k0 k1 cs = take (length cs) outl"
    by (simp only: spec_threefry_def flat_def h_def qs_def outl_def Let_def)
  have out: "(if asize cnt mod 2 \<noteq> 0 then butlast outl else outl) = take (length cs) outl"
  proof (cases "odd (length cs)")
    case True
    then have "length outl = Suc (length cs)"
      using len by (simp add: flat_def)
    then show ?thesis
      using True by (simp add: n butlast_conv_take odd_iff_mod_2_eq_one)
  next
    case False
    then have "length outl = length cs"
      using len by (simp add: flat_def)
    then show ?thesis
      using False by (simp add: n even_iff_mod_2_eq_zero)
  qed
  have flat: "(if asize cnt mod 2 \<noteq> 0 then ravel cnt @ [0] else ravel cnt) = flat"
    by (auto simp: flat_def n cs_def [symmetric] odd_iff_mod_2_eq_one)
  have "length cs \<le> length outl"
    unfolding len by (simp add: flat_def)
  then have "length (take (length cs) outl) = length cs"
    by (simp only: length_take min.absorb2)
  then have "prod_list (shape cnt) = length (take (length cs) outl)"
    using assms by (simp add: wf_array_def cs_def)
  then have "lax_reshape (take (length cs) outl) (shape cnt)
        = Inr \<lparr>shape = shape cnt, ravel = spec_threefry k0 k1 cs\<rparr>"
    by (simp only: lax_reshape_def spec simp_thms if_True)
  then show ?thesis
    unfolding threefry_2x32_def Let_def flat np_split2_even [OF ev] h_def [symmetric]
    by (simp only: sum.case rounds fst_conv snd_conv outl_def [symmetric] out cs_def)
qed

lemma length_spec_threefry: "length (spec_threefry k0 k1 cs) = length cs"
  by (auto simp: spec_threefry_def Let_def elim!: evenE oddE)

text \<open>
  Claim C1. For all key words \<open>k0\<close>, \<open>k1\<close> and every counter array, \<open>threefry_2x32\<close>
  returns the counter's shape filled with the words that the twenty-round schedule of the
  specification (\<open>spec_threefry\<close>: round keys, initial key addition, five groups of four
  rounds with alternating rotation groups, injections with the counters 1 to 5) gives.
  The instance at key words \<open>(0, 0)\<close> and counter \<open>[0, 1, 2, 3]\<close> follows it.
\<close>

theorem threefry_2x32_schedule:
  assumes "wf_array cnt"
  shows "threefry_2x32 (k0, k1) cnt
         = Inr \<lparr>shape = shape cnt, ravel = spec_threefry k0 k1 (ravel cnt)\<rparr>"
  using assms by (rule threefry_2x32_spec)

theorem threefry_2x32_schedule_witness:
  "wf_array \<lparr>shape = [4], ravel = [0, 1, 2, 3 :: u32]\<rparr>
   \<and> threefry_2x32 (0, 0) \<lparr>shape = [4], ravel = [0, 1, 2, 3]\<rparr>
       = Inr \<lparr>shape = [4], ravel = spec_threefry 0 0 [0, 1, 2, 3]\<rparr>
   \<and> spec_threefry 0 0 [0, 1, 2, 3] = [4146024105, 967050713, 2718843009, 1272950319]"
proof -
  have w: "wf_array \<lparr>shape = [4], ravel = [0, 1, 2, 3 :: u32]\<rparr>"
    by (simp add: wf_array_def)
  have v: "spec_threefry 0 0 [0, 1, 2, 3] = [4146024105, 967050713, 2718843009, 1272950319]"
    by code_simp
  from threefry_2x32_schedule [OF w, of 0 0] w v show ?thesis by simp
qed

subsection \<open>The result has the counter's shape\<close>

lemma spec_threefry_padded:
  assumes "odd (length cs)"
  shows "spec_threefry k0 k1 cs = butlast (spec_threefry k0 k1 (cs @ [0]))"
proof -
  define flat where "flat = cs @ [0]"
  define outp where "outp = map fst (map (spec_threefry_pair k0 k1)
        (zip (take (length flat div 2) flat) (drop (length flat div 2) flat)))
      @ map snd (map (spec_threefry_pair k0 k1)
        (zip (take (length flat div 2) flat) (drop (length flat div 2) flat)))"
  have ev: "even (length flat)"
    using assms by (simp add: flat_def)
  then have len: "length outp = length flat"
    by (auto simp: outp_def elim!: evenE)
  have "spec_threefry k0 k1 flat = take (length flat) outp"
    using ev by (simp only: spec_threefry_def Let_def outp_def simp_thms if_False)
  then have full: "spec_threefry k0 k1 flat = outp"
    by (simp add: len)
  have "spec_threefry k0 k1 cs = take (length cs) outp"
    using assms by (simp only: spec_threefry_def Let_def outp_def flat_def simp_thms if_True)
  also have "\<dots> = butlast outp"
    by (simp add: butlast_conv_take len flat_def)
  finally show ?thesis
    by (simp add: full flat_def [symmetric])
qed

text \<open>
  Claim C2. On every counter array, of odd or even element count, \<open>threefry_2x32\<close>
  returns an array of the counter's shape with as many words. When the count is odd the
  result is the hash of the counter with one zero word appended, without its last word.
\<close>

theorem threefry_2x32_same_shape:
  assumes "wf_array cnt"
  shows "\<exists>out. threefry_2x32 kp cnt = Inr out \<and> shape out = shape cnt
           \<and> length (ravel out) = length (ravel cnt)
           \<and> (odd (asize cnt) \<longrightarrow>
                (\<exists>padded. threefry_2x32 kp \<lparr>shape = [asize cnt + 1], ravel = ravel cnt @ [0]\<rparr> = Inr padded
                   \<and> ravel out = butlast (ravel padded)))"
proof -
  obtain k0 k1 where kp: "kp = (k0, k1)" by (cases kp)
  let ?p = "\<lparr>shape = [asize cnt + 1], ravel = ravel cnt @ [0]\<rparr>"
  have n: "asize cnt = length (ravel cnt)"
    using assms by (simp add: wf_array_def asize_def)
  have wp: "wf_array ?p"
    by (simp add: wf_array_def n)
  have pad: "spec_threefry k0 k1 (ravel cnt) = butlast (spec_threefry k0 k1 (ravel cnt @ [0]))"
    if "odd (length (ravel cnt))"
    using that by (rule spec_threefry_padded)
  show ?thesis
    unfolding kp threefry_2x32_spec [OF assms] threefry_2x32_spec [OF wp]
    using pad by (simp add: length_spec_threefry n)
qed

theorem threefry_2x32_same_shape_witness:
  "wf_array \<lparr>shape = [3], ravel = [0, 1, 2 :: u32]\<rparr>
   \<and> (\<exists>out. threefry_2x32 (0, 0) \<lparr>shape = [3], ravel = [0, 1, 2]\<rparr> = Inr out
          \<and> shape out = [3] \<and> length (ravel out) = 3)"
proof -
  have w: "wf_array \<lparr>shape = [3], ravel = [0, 1, 2 :: u32]\<rparr>"
    by (simp add: wf_array_def)
  from threefry_2x32_same_shape [OF w, of "(0, 0)"] w show ?thesis
    by auto
qed

section \<open>Properties of splitting and folding in\<close>

lemma lax_iota_nonneg:
  "0 \<le> n \<Longrightarrow> lax_iota n = Inr \<lparr>shape = [nat n], ravel = map of_nat [0..<nat n]\<rparr>"
  by (simp add: lax_iota_def)

lemma wf_counters: "wf_array \<lparr>shape = [n], ravel = map of_nat [0..<n]\<rparr>"
  by (simp add: wf_array_def)

lemma threefry_2x32_counters:
  "threefry_2x32 k \<lparr>shape = [n], ravel = map of_nat [0..<n]\<rparr>
   = Inr \<lparr>shape = [n], ravel = spec_threefry (fst k) (snd k) (map of_nat [0..<n])\<rparr>"
  using threefry_2x32_spec [OF wf_counters, of "fst k" "snd k" n] by simp

lemma split_eq:
  assumes "0 \<le> num"
  shows "split k num = Inr \<lparr>shape = [nat num, 2],
           ravel = spec_threefry (fst k) (snd k) (map of_nat [0..<nat (num * 2)])\<rparr>"
proof -
  have "nat num * 2 = nat (num * 2)"
    using assms by (simp add: nat_mult_distrib)
  then show ?thesis
    using assms
    by (simp add: split_def lax_iota_nonneg threefry_2x32_counters lax_reshape_def
        length_spec_threefry)
qed



section \<open>Properties of bit extraction\<close>

lemma is_prng_key_iff: "is_prng_key k \<longleftrightarrow> (\<exists>els. k = PyArray UInt32 [2] els)"
  by (cases k) auto

text \<open>
  Claim C10. \<open>_random_bits\<close> checks its key first: on every value that is not an array of
  shape \<open>(2,)\<close> and dtype uint32 the result is the TypeError of the key check, whatever
  the other arguments are; and on every \<open>bit_width\<close> other than 32 and 64 the result is a
  TypeError. An error result is all the call does: the hash is not reached.
\<close>

theorem random_bits_validates_key:
  "(\<not> (\<exists>els. k = PyArray UInt32 [2] els) \<longrightarrow>
      random_bits k bw shp = Inl (TypeError ''_random_bits got invalid prng key.''))
   \<and> (bw \<noteq> 32 \<and> bw \<noteq> 64 \<longrightarrow> (\<exists>msg. random_bits k bw shp = Inl (TypeError msg)))"
  by (simp add: random_bits_def is_prng_key_iff)

theorem random_bits_validates_key_witness:
  "random_bits PyObject 32 [1] = Inl (TypeError ''_random_bits got invalid prng key.'')
   \<and> random_bits (PyArray Int32 [2] [0, 0]) 32 [1] = Inl (TypeError ''_random_bits got invalid prng key.'')
   \<and> random_bits (PyArray UInt32 [2, 1] [0, 0]) 32 [1] = Inl (TypeError ''_random_bits got invalid prng key.'')
   \<and> (\<exists>msg. random_bits (key_value (0, 0)) 16 [1] = Inl (TypeError msg))"
  using random_bits_validates_key [of PyObject 32 "[1]"]
    random_bits_validates_key [of "PyArray Int32 [2] [0, 0]" 32 "[1]"]
    random_bits_validates_key [of "PyArray UInt32 [2, 1] [0, 0]" 32 "[1]"]
    random_bits_validates_key [of "key_value (0, 0)" 16 "[1]"]
  by simp

subsection \<open>The capacity of one call\<close>

lemma sint_small:
  "0 \<le> x \<Longrightarrow> x < 4294967295 \<Longrightarrow> sint (word_of_int x :: 64 word) = x"
  by (simp add: int_word_sint)

lemma max_count_small:
  assumes "0 \<le> m" and "m * int (prod_list shp) < 4294967295"
  shows "sint (of_int m * onp_prod shp :: 64 word) = m * int (prod_list shp)"
proof -
  have "(of_int m * onp_prod shp :: 64 word) = word_of_int (m * int (prod_list shp))"
    by (simp add: onp_prod_def)
  moreover have "0 \<le> m * int (prod_list shp)"
    using assms(1) by simp
  ultimately show ?thesis
    using assms(2) by (simp only: sint_small)
qed

lemma unpack_key_words: "unpack_keypair (PyArray UInt32 [2] [a, b]) = Inr (of_nat a, of_nat b)"
  by simp

lemma random_bits_small:
  assumes k: "k = PyArray UInt32 [2] [a, b]"
    and bw: "bw = 32 \<or> bw = 64"
    and small: "(bw div 32) * int (prod_list shp) < 4294967295"
  shows "random_bits k bw shp = Inr \<lparr>shape = shp, ravel =
           (if bw = 64
            then map2 (\<lambda>h l. unat (push_bit 32 (ucast h :: u64) OR ucast l))
                   (take (prod_list shp) (spec_threefry (of_nat a) (of_nat b) (map of_nat [0..<2 * prod_list shp])))
                   (drop (prod_list shp) (spec_threefry (of_nat a) (of_nat b) (map of_nat [0..<2 * prod_list shp])))
            else map unat (spec_threefry (of_nat a) (of_nat b) (map of_nat [0..<prod_list shp])))\<rparr>"
proof -
  define P where "P = prod_list shp"
  define m where "m = bw div 32"
  have m: "m = 1 \<or> m = 2" "0 \<le> m"
    using bw by (auto simp: m_def)
  have mc: "sint (of_int (bw div 32) * onp_prod shp :: 64 word) = m * int P"
    unfolding m_def P_def using m(2) small by (intro max_count_small) (simp_all add: m_def)
  have guard: "\<not> uint32_max \<le> m * int P"
    using small by (simp add: uint32_max_def m_def P_def)
  have iota: "lax_iota (m * int P) = Inr \<lparr>shape = [nat (m * int P)], ravel = map of_nat [0..<nat (m * int P)]\<rparr>"
    using m(2) by (simp add: lax_iota_nonneg)
  define out where "out = spec_threefry (of_nat a) (of_nat b) (map of_nat [0..<nat (m * int P)])"
  have hash: "threefry_2x32 (of_nat a, of_nat b) \<lparr>shape = [nat (m * int P)], ravel = map of_nat [0..<nat (m * int P)]\<rparr>
              = Inr \<lparr>shape = [nat (m * int P)], ravel = out\<rparr>"
    by (simp add: threefry_2x32_counters out_def)
  have len: "length out = nat (m * int P)"
    by (simp add: out_def length_spec_threefry)
  have head: "random_bits k bw shp =
      (if bw = 64
       then (case np_split2 out of Inl e \<Rightarrow> Inl e
             | Inr halves \<Rightarrow> lax_reshape (map2 (\<lambda>h l. unat (push_bit 32 (ucast h :: u64) OR ucast l))
                                  (fst halves) (snd halves)) shp)
       else lax_reshape (map unat out) shp)"
    using bw unfolding random_bits_def Let_def mc k
    by (simp only: is_prng_key.simps unpack_key_words iota hash guard sum.case simp_thms
        if_True if_False ndarray.simps) auto
  show ?thesis
  proof (cases "bw = 64")
    case True
    then have n: "nat (m * int P) = 2 * P"
      by (simp add: m_def nat_mult_distrib)
    have sp: "np_split2 out = Inr (take P out, drop P out)"
      using len n by (simp add: np_split2_def)
    have "length (map2 (\<lambda>h l. unat (push_bit 32 (ucast h :: u64) OR ucast l)) (take P out) (drop P out)) = P"
      using len n by simp
    then have "lax_reshape (map2 (\<lambda>h l. unat (push_bit 32 (ucast h :: u64) OR ucast l)) (take P out) (drop P out)) shp
        = Inr \<lparr>shape = shp, ravel = map2 (\<lambda>h l. unat (push_bit 32 (ucast h :: u64) OR ucast l)) (take P out) (drop P out)\<rparr>"
      unfolding lax_reshape_def P_def by simp
    then have "random_bits k bw shp
        = Inr \<lparr>shape = shp, ravel = map2 (\<lambda>h l. unat (push_bit 32 (ucast h :: u64) OR ucast l)) (take P out) (drop P out)\<rparr>"
      unfolding head using True by (simp add: sp)
    then show ?thesis
      using True n unfolding out_def P_def by simp
  next
    case False
    then have "bw = 32" using bw by simp
    then have n: "nat (m * int P) = P"
      by (simp add: m_def)
    have "lax_reshape (map unat out) shp = Inr \<lparr>shape = shp, ravel = map unat out\<rparr>"
      unfolding lax_reshape_def using len n by (simp add: P_def)
    then have "random_bits k bw shp = Inr \<lparr>shape = shp, ravel = map unat out\<rparr>"
      unfolding head using False by simp
    then show ?thesis
      using False n unfolding out_def P_def by simp
  qed
qed


lemma random_bits_Inr_small:
  assumes ok: "random_bits k bw shp = Inr r" and bw: "bw = 32 \<or> bw = 64"
  shows "(bw div 32) * int (prod_list shp) < 4294967295"
proof -
  define mc where "mc = sint (of_int (bw div 32) * onp_prod shp :: 64 word)"
  from ok obtain counts kp bits where g: "mc < uint32_max"
    and c: "lax_iota mc = Inr counts" and h: "threefry_2x32 kp counts = Inr bits"
    and fin: "bw = 64 \<and> (\<exists>halves. np_split2 (ravel bits) = Inr halves
                \<and> lax_reshape (map2 (\<lambda>h l. unat (push_bit 32 (ucast h :: u64) OR ucast l))
                      (fst halves) (snd halves)) shp = Inr r)
              \<or> bw \<noteq> 64 \<and> lax_reshape (map unat (ravel bits)) shp = Inr r"
    unfolding random_bits_def Let_def mc_def [symmetric]
    by (auto split: if_splits sum.splits)
  from c have nn: "0 \<le> mc" and counts: "counts = \<lparr>shape = [nat mc], ravel = map of_nat [0..<nat mc]\<rparr>"
    by (auto simp: lax_iota_def split: if_splits)
  from h have len: "length (ravel bits) = nat mc"
    unfolding counts by (auto simp: threefry_2x32_counters length_spec_threefry)
  from fin show ?thesis
  proof (elim disjE conjE exE)
    fix halves
    assume b: "bw = 64" and sp: "np_split2 (ravel bits) = Inr halves"
      and rs: "lax_reshape (map2 (\<lambda>h l. unat (push_bit 32 (ucast h :: u64) OR ucast l))
                      (fst halves) (snd halves)) shp = Inr r"
    from sp have "length (fst halves) = nat mc div 2" "length (snd halves) = nat mc - nat mc div 2"
      by (auto simp: np_split2_def len split: if_splits)
    with rs have "prod_list shp \<le> nat mc div 2"
      by (auto simp: lax_reshape_def split: if_splits)
    with g nn b show ?thesis
      by (simp add: uint32_max_def)
  next
    assume b: "bw \<noteq> 64" and rs: "lax_reshape (map unat (ravel bits)) shp = Inr r"
    from rs have "prod_list shp = nat mc"
      by (auto simp: lax_reshape_def len split: if_splits)
    with g nn b bw show ?thesis
      by (simp add: uint32_max_def)
  qed
qed


text \<open>
  Claim C4, as the source has it. With a valid key and a width of 32 or 64,
  \<open>_random_bits\<close> fails exactly when \<open>max_count = (bit_width / 32) * product(shape)\<close>
  reaches \<open>2 ^ 32 - 1\<close>, the largest uint32 (the guard is \<open>>=\<close>; a product that wraps
  around in 64 bits fails later, in \<open>iota\<close> or in the final reshape). Below that bound the
  result has the requested shape and holds the hash of the counters
  \<open>0 .. max_count - 1\<close> under the key's two words; for width 64, element \<open>i\<close> is word
  \<open>i\<close> of the first half of the hash output shifted left by 32, or-ed with word \<open>i\<close> of
  the second half.
\<close>

theorem random_bits_capacity:
  assumes k: "k = PyArray UInt32 [2] [a, b]" and bw: "bw = 32 \<or> bw = 64"
  shows "((\<exists>e. random_bits k bw shp = Inl e) \<longleftrightarrow> uint32_max \<le> (bw div 32) * int (prod_list shp))
     \<and> ((bw div 32) * int (prod_list shp) < uint32_max \<longrightarrow>
          (\<exists>out. threefry_2x32 (of_nat a, of_nat b)
                   \<lparr>shape = [nat (bw div 32) * prod_list shp],
                    ravel = map of_nat [0..<nat (bw div 32) * prod_list shp]\<rparr> = Inr out
             \<and> random_bits k bw shp = Inr \<lparr>shape = shp, ravel =
                  (if bw = 64
                   then map2 (\<lambda>h l. unat (push_bit 32 (ucast h :: u64) OR ucast l))
                          (take (prod_list shp) (ravel out)) (drop (prod_list shp) (ravel out))
                   else map unat (ravel out))\<rparr>))"
proof (intro conjI impI iffI)
  assume "\<exists>e. random_bits k bw shp = Inl e"
  then have "\<not> (\<exists>r. random_bits k bw shp = Inr r)"
    by auto
  then have "\<not> (bw div 32) * int (prod_list shp) < 4294967295"
    using random_bits_small [OF k bw] by blast
  then show "uint32_max \<le> (bw div 32) * int (prod_list shp)"
    by (simp add: uint32_max_def)
next
  assume "uint32_max \<le> (bw div 32) * int (prod_list shp)"
  then have "\<not> (bw div 32) * int (prod_list shp) < 4294967295"
    by (simp add: uint32_max_def)
  then have "\<not> (\<exists>r. random_bits k bw shp = Inr r)"
    using random_bits_Inr_small [OF _ bw] by blast
  then show "\<exists>e. random_bits k bw shp = Inl e"
    by (cases "random_bits k bw shp") auto
next
  assume "(bw div 32) * int (prod_list shp) < uint32_max"
  then have small: "(bw div 32) * int (prod_list shp) < 4294967295"
    by (simp add: uint32_max_def)
  have n: "nat (bw div 32) * prod_list shp = (if bw = 64 then 2 * prod_list shp else prod_list shp)"
    using bw by auto
  show "\<exists>out. threefry_2x32 (of_nat a, of_nat b)
                   \<lparr>shape = [nat (bw div 32) * prod_list shp],
                    ravel = map of_nat [0..<nat (bw div 32) * prod_list shp]\<rparr> = Inr out
             \<and> random_bits k bw shp = Inr \<lparr>shape = shp, ravel =
                  (if bw = 64
                   then map2 (\<lambda>h l. unat (push_bit 32 (ucast h :: u64) OR ucast l))
                          (take (prod_list shp) (ravel out)) (drop (prod_list shp) (ravel out))
                   else map unat (ravel out))\<rparr>"
    unfolding random_bits_small [OF k bw small] threefry_2x32_counters n
    using bw by auto
qed

theorem random_bits_capacity_witness:
  "(\<exists>e. random_bits (PyArray UInt32 [2] [0, 0]) 32 [4294967295] = Inl e)
   \<and> (\<exists>out. threefry_2x32 (0, 0) \<lparr>shape = [3], ravel = [0, 1, 2]\<rparr> = Inr out
          \<and> random_bits (PyArray UInt32 [2] [0, 0]) 32 [3] = Inr \<lparr>shape = [3], ravel = map unat (ravel out)\<rparr>)"
proof -
  have k: "PyArray UInt32 [2] [0, 0] = PyArray UInt32 [2] [0, 0]" ..
  have bw: "(32::int) = 32 \<or> (32::int) = 64" by simp
  have u: "[0..<3] = [0, 1, 2]"
    by (simp add: upt_rec)
  from random_bits_capacity [OF k bw, of "[4294967295]", THEN conjunct1]
  have a: "\<exists>e. random_bits (PyArray UInt32 [2] [0, 0]) 32 [4294967295] = Inl e"
    by (simp add: uint32_max_def)
  from random_bits_capacity [OF k bw, of "[3]", THEN conjunct2]
  have b: "\<exists>out. threefry_2x32 (0, 0) \<lparr>shape = [3], ravel = [0, 1, 2]\<rparr> = Inr out
          \<and> random_bits (PyArray UInt32 [2] [0, 0]) 32 [3] = Inr \<lparr>shape = [3], ravel = map unat (ravel out)\<rparr>"
    by (simp add: uint32_max_def u)
  from a b show ?thesis ..
qed

text \<open>
  Claim C4 as stated fails twice. A request of exactly \<open>2 ^ 32 - 1\<close> words does not
  exceed the largest uint32 count and is refused all the same. And a 64-bit element is not
  made of two consecutive words: for shape \<open>(2,)\<close> the four hash words
  \<open>w0, w1, w2, w3\<close> give \<open>(w0, w2)\<close> and \<open>(w1, w3)\<close>.
\<close>

theorem random_bits_exceeds_counterexample:
  "(\<exists>e. random_bits (key_value (0, 0)) 32 [4294967295] = Inl e)
   \<and> \<not> uint32_max < (32 div 32) * int (prod_list [4294967295])
   \<and> threefry_2x32 (0, 0) \<lparr>shape = [4], ravel = [0, 1, 2, 3]\<rparr>
       = Inr \<lparr>shape = [4], ravel = [4146024105, 967050713, 2718843009, 1272950319]\<rparr>
   \<and> random_bits (key_value (0, 0)) 64 [2]
       = Inr \<lparr>shape = [2], ravel = [4146024105 * 2 ^ 32 + 2718843009, 967050713 * 2 ^ 32 + 1272950319]\<rparr>
   \<and> [4146024105 * 2 ^ 32 + 2718843009, 967050713 * 2 ^ 32 + 1272950319]
       \<noteq> [4146024105 * 2 ^ 32 + 967050713, 2718843009 * 2 ^ 32 + (1272950319 :: nat)]"
proof -
  have a: "\<exists>e. random_bits (key_value (0, 0)) 32 [4294967295] = Inl e"
    by (simp add: random_bits_def key_value_def onp_prod_def uint32_max_def)
  have b: "\<not> uint32_max < (32 div 32) * int (prod_list [4294967295])"
    by (simp add: uint32_max_def)
  have w: "wf_array \<lparr>shape = [4], ravel = [0, 1, 2, 3 :: u32]\<rparr>"
    by (simp add: wf_array_def)
  have v: "spec_threefry 0 0 [0, 1, 2, 3] = [4146024105, 967050713, 2718843009, 1272950319]"
    by code_simp
  have c: "threefry_2x32 (0, 0) \<lparr>shape = [4], ravel = [0, 1, 2, 3]\<rparr>
       = Inr \<lparr>shape = [4], ravel = [4146024105, 967050713, 2718843009, 1272950319]\<rparr>"
    using threefry_2x32_spec [OF w, of 0 0] by (simp add: v)
  have u: "[0..<4] = [0, 1, 2, 3]"
    by (simp add: upt_rec)
  have d: "random_bits (key_value (0, 0)) 64 [2]
       = Inr \<lparr>shape = [2], ravel = [4146024105 * 2 ^ 32 + 2718843009, 967050713 * 2 ^ 32 + 1272950319]\<rparr>"
    using random_bits_small [of "key_value (0, 0)" 0 0 64 "[2]"]
    by (simp add: key_value_def u v)
  have e: "[4146024105 * 2 ^ 32 + 2718843009, 967050713 * 2 ^ 32 + 1272950319]
       \<noteq> [4146024105 * 2 ^ 32 + 967050713, 2718843009 * 2 ^ 32 + (1272950319 :: nat)]"
    by simp
  from a b c d e show ?thesis by blast
qed

section \<open>Properties of the bounded-integer sampler\<close>

subsection \<open>Wrap-around arithmetic\<close>

lemma wrap_signed_id:
  "0 < n \<Longrightarrow> - (2 ^ (n - 1)) \<le> v \<Longrightarrow> v < 2 ^ (n - 1) \<Longrightarrow> wrap_signed n v = v"
proof -
  assume n: "0 < n" and lo: "- (2 ^ (n - 1)) \<le> v" and hi: "v < 2 ^ (n - 1)"
  have p: "(2::int) ^ n = 2 * 2 ^ (n - 1)"
    using n by (cases n) simp_all
  have "0 \<le> v + 2 ^ (n - 1)" "v + 2 ^ (n - 1) < 2 ^ n"
    using lo hi p by linarith+
  then have "(v + 2 ^ (n - 1)) mod 2 ^ n = v + 2 ^ (n - 1)"
    by simp
  then show ?thesis
    by (simp add: wrap_signed_def)
qed

lemma wrap_signed_mod: "wrap_signed n v mod 2 ^ n = v mod 2 ^ n" if "0 < n"
proof -
  have p: "(2::int) ^ n = 2 * 2 ^ (n - 1)"
    using that by (cases n) simp_all
  have "wrap_signed n v mod 2 ^ n = ((v + 2 ^ (n - 1)) mod 2 ^ n - 2 ^ (n - 1) mod 2 ^ n) mod 2 ^ n"
    unfolding wrap_signed_def by (simp add: mod_diff_right_eq)
  also have "\<dots> = (v + 2 ^ (n - 1) - 2 ^ (n - 1)) mod 2 ^ n"
    by (simp only: mod_diff_eq)
  finally show ?thesis by simp
qed

lemma wrap_signed_cong:
  assumes "0 < n" and "a mod 2 ^ n = b mod 2 ^ n"
  shows "wrap_signed n a = wrap_signed n b"
proof -
  have "(a + 2 ^ (n - 1)) mod 2 ^ n = (b + 2 ^ (n - 1)) mod 2 ^ n"
    using assms(2) by (metis mod_add_left_eq)
  then show ?thesis
    by (simp add: wrap_signed_def)
qed

lemma wrap_unsigned_cong:
  "a mod 2 ^ n = b mod 2 ^ n \<Longrightarrow> wrap_unsigned n a = wrap_unsigned n b"
  by (simp add: wrap_unsigned_def)

lemma convert_mod:
  assumes "iinfo_bits dt = Some n" "0 < n"
  shows "convert_element_type dt v mod 2 ^ n = v mod 2 ^ n"
  using assms by (simp add: convert_element_type_def wrap_signed_mod wrap_unsigned_def)

lemma convert_cong:
  assumes "iinfo_bits dt = Some n" "0 < n" "a mod 2 ^ n = b mod 2 ^ n"
  shows "convert_element_type dt a = convert_element_type dt b"
  using assms by (auto simp: convert_element_type_def intro: wrap_signed_cong wrap_unsigned_cong)

lemma convert_id:
  assumes "iinfo_bits dt = Some n" "0 < n" "dtype_min dt \<le> v" "v \<le> dtype_max dt"
  shows "convert_element_type dt v = v"
proof (cases "is_signed dt")
  case True
  then show ?thesis
    using assms by (simp add: convert_element_type_def dtype_min_def dtype_max_def wrap_signed_id)
next
  case False
  then show ?thesis
    using assms by (simp add: convert_element_type_def dtype_min_def dtype_max_def wrap_unsigned_def)
qed

lemma dtype_width:
  assumes "iinfo_bits dt = Some n" "0 < n"
  shows "dtype_max dt - dtype_min dt = 2 ^ n - 1"
proof -
  have p: "(2::int) ^ n = 2 * 2 ^ (n - 1)"
    using assms(2) by (cases n) simp_all
  show ?thesis
    using assms(1) p by (simp add: dtype_min_def dtype_max_def)
qed


subsection \<open>The range of the result, away from the largest value of the dtype\<close>

lemma randint_Inr_elems:
  assumes dt: "iinfo_bits dt = Some n"
    and ok: "randint k shp minval maxval dt = Inr r"
  shows "shape r = shp \<and> (n = 32 \<or> n = 64) \<and>
    (\<forall>x \<in> set (ravel r). \<exists>y. x = convert_element_type dt (convert_element_type dt minval
              + convert_element_type dt (int (y mod
                  nat (wrap_unsigned n (convert_element_type dt
                     (max (convert_element_type dt (convert_element_type dt minval + 1))
                          (convert_element_type dt maxval)
                      - convert_element_type dt minval)))))))"
proof -
  define spn where "spn = nat (wrap_unsigned n (convert_element_type dt
                     (max (convert_element_type dt (convert_element_type dt minval + 1))
                          (convert_element_type dt maxval)
                      - convert_element_type dt minval)))"
  from ok have n: "n = 32 \<or> n = 64"
    unfolding randint_def Let_def dt option.case by (simp split: if_splits)
  from ok have "shape r = shp"
    unfolding randint_def Let_def dt option.case
    by (auto split: if_splits sum.splits)
  moreover from ok have "\<forall>x \<in> set (ravel r). \<exists>y. x = convert_element_type dt
        (convert_element_type dt minval + convert_element_type dt (int (y mod spn)))"
    unfolding randint_def Let_def dt option.case spn_def [symmetric]
    by (auto split: if_splits sum.splits)
  ultimately show ?thesis
    using n by (simp add: spn_def)
qed

lemma randint_range:
  assumes dt: "iinfo_bits dt = Some n"
    and mn: "dtype_min dt \<le> minval" "minval < dtype_max dt"
    and mx: "dtype_min dt \<le> maxval" "maxval \<le> dtype_max dt"
    and ok: "randint k shp minval maxval dt = Inr r"
  shows "shape r = shp \<and> (\<forall>x \<in> set (ravel r). minval \<le> x \<and> x < max (minval + 1) maxval)"
proof -
  define M where "M = max (minval + 1) maxval"
  define d where "d = M - minval"
  from randint_Inr_elems [OF dt ok] have shp: "shape r = shp" and n: "n = 32 \<or> n = 64"
    and r: "\<forall>x \<in> set (ravel r). \<exists>y. x = convert_element_type dt (convert_element_type dt minval
              + convert_element_type dt (int (y mod
                  nat (wrap_unsigned n (convert_element_type dt
                     (max (convert_element_type dt (convert_element_type dt minval + 1))
                          (convert_element_type dt maxval)
                      - convert_element_type dt minval))))))"
    by simp_all
  from n have n0: "0 < n" by auto
  have c: "convert_element_type dt minval = minval" "convert_element_type dt maxval = maxval"
    "convert_element_type dt (minval + 1) = minval + 1"
    using mn mx by (simp_all add: convert_id [OF dt n0])
  have M: "minval < M" "M \<le> dtype_max dt"
    using mn mx by (auto simp: M_def)
  have d: "0 < d" "d < 2 ^ n"
    using M mn(1) dtype_width [OF dt n0] by (auto simp: d_def)
  have "wrap_unsigned n (convert_element_type dt d) = d mod 2 ^ n"
    by (simp add: wrap_unsigned_def convert_mod [OF dt n0])
  also have "\<dots> = d"
    using d by simp
  finally have spn: "nat (wrap_unsigned n (convert_element_type dt d)) = nat d" by simp
  have r': "\<forall>x \<in> set (ravel r). \<exists>y. x = convert_element_type dt (minval
              + convert_element_type dt (int (y mod nat d)))"
    using r by (simp add: c M_def [symmetric] d_def [symmetric] spn)
  have el: "minval \<le> convert_element_type dt (minval + convert_element_type dt (int (y mod nat d)))
          \<and> convert_element_type dt (minval + convert_element_type dt (int (y mod nat d))) < M" for y
  proof -
    define off where "off = int (y mod nat d)"
    have "y mod nat d < nat d"
      using d(1) by simp
    then have off: "0 \<le> off" "off < d"
      by (simp_all add: off_def zless_nat_eq_int_zless)
    have "(minval + convert_element_type dt off) mod 2 ^ n = (minval + off) mod 2 ^ n"
      by (metis convert_mod [OF dt n0] mod_add_right_eq)
    then have "convert_element_type dt (minval + convert_element_type dt off)
               = convert_element_type dt (minval + off)"
      by (rule convert_cong [OF dt n0])
    also have "\<dots> = minval + off"
      using off mn(1) M by (intro convert_id [OF dt n0]) (auto simp: d_def)
    finally show ?thesis
      using off by (simp add: off_def d_def)
  qed
  show ?thesis
    using shp el r' by (auto simp: M_def)
qed

lemma randint_degenerate:
  assumes dt: "iinfo_bits dt = Some n"
    and mn: "dtype_min dt \<le> minval" "minval < dtype_max dt"
    and mx: "dtype_min dt \<le> maxval" "maxval \<le> minval"
    and ok: "randint k shp minval maxval dt = Inr r"
  shows "\<forall>x \<in> set (ravel r). x = minval"
proof -
  have "maxval \<le> dtype_max dt"
    using mn mx by simp
  from randint_range [OF dt mn mx(1) this ok] mx(2) show ?thesis
    by (auto simp: max_def)
qed


subsection \<open>No error from the bounds\<close>

lemma split_pair_ok: "\<exists>k1 k2. split_pair k = Inr (k1, k2)"
proof -
  define out where "out = spec_threefry (fst k) (snd k) (map of_nat [0..<nat (2 * 2)])"
  have s: "split k 2 = Inr \<lparr>shape = [2, 2], ravel = out\<rparr>"
    using split_eq [of 2 k] by (simp add: out_def)
  have "length out = 4"
    by (simp add: out_def length_spec_threefry)
  then have "rows2 \<lparr>shape = [2, 2], ravel = out\<rparr> = Inr [(out ! 0, out ! 1), (out ! 2, out ! 3)]"
    by (simp add: rows2_def upt_rec)
  then show ?thesis
    by (simp add: split_pair_def s)
qed

lemma randint_total:
  assumes dt: "iinfo_bits dt = Some n" and n: "n = 32 \<or> n = 64"
    and small: "int (n div 32) * int (prod_list shp) < 4294967295"
  shows "\<exists>r. randint k shp minval maxval dt = Inr r"
proof -
  obtain k1 k2 where ks: "split_pair k = Inr (k1, k2)"
    using split_pair_ok by blast
  have bw: "int n = 32 \<or> int n = 64"
    using n by auto
  have sm: "(int n div 32) * int (prod_list shp) < 4294967295"
    using small n by auto
  have "\<exists>b. random_bits (key_value kk) (int n) shp = Inr b" for kk
    using random_bits_small [OF _ bw sm, of "key_value kk" "unat (fst kk)" "unat (snd kk)"]
    by (simp add: key_value_def)
  then obtain hb lb where "random_bits (key_value k1) (int n) shp = Inr hb"
    "random_bits (key_value k2) (int n) shp = Inr lb"
    by blast
  then show ?thesis
    using n by (auto simp: randint_def dt ks Let_def)
qed


subsection \<open>The sampler at key \<open>(0, 0)\<close> and shape \<open>(1,)\<close>\<close>

lemma spec_threefry_key0: "spec_threefry 0 0 [0, 1, 2, 3] = [4146024105, 967050713, 2718843009, 1272950319]"
  by code_simp

lemma split_pair_key0: "split_pair (0, 0) = Inr ((4146024105, 967050713), (2718843009, 1272950319))"
  using split_eq [of 2 "(0, 0)"]
  by (simp add: split_pair_def spec_threefry_key0 rows2_def upt_rec)

lemma hash_subkey1: "spec_threefry 4146024105 967050713 [0] = [2393184043]"
  by code_simp

lemma hash_subkey2: "spec_threefry 2718843009 1272950319 [0] = [452556574]"
  by code_simp

lemma random_bits_subkey1: "random_bits (key_value (4146024105, 967050713)) 32 [1] = Inr \<lparr>shape = [1], ravel = [2393184043]\<rparr>"
  using random_bits_small [of "key_value (4146024105, 967050713)" 4146024105 967050713 32 "[1]"]
  by (simp add: key_value_def hash_subkey1)

lemma random_bits_subkey2: "random_bits (key_value (2718843009, 1272950319)) 32 [1] = Inr \<lparr>shape = [1], ravel = [452556574]\<rparr>"
  using random_bits_small [of "key_value (2718843009, 1272950319)" 2718843009 1272950319 32 "[1]"]
  by (simp add: key_value_def hash_subkey2)

lemma randint_eval:
  assumes "iinfo_bits dt = Some n" and "n = 32 \<or> n = 64"
    and "split_pair k = Inr (k1, k2)"
    and "random_bits (key_value k1) (int n) shp = Inr hb"
    and "random_bits (key_value k2) (int n) shp = Inr lb"
    and "convert_element_type dt minval = mn"
    and "max (convert_element_type dt (mn + 1)) (convert_element_type dt maxval) = mx"
    and "nat (wrap_unsigned n (convert_element_type dt (mx - mn))) = spn"
    and "randint_multiplier n spn = mu"
  shows "randint k shp minval maxval dt = Inr \<lparr>shape = shp, ravel =
           map2 (\<lambda>h l. convert_element_type dt (mn + convert_element_type dt
                   (int (((((h mod spn) * mu) mod 2 ^ n + l mod spn) mod 2 ^ n) mod spn))))
             (ravel hb) (ravel lb)\<rparr>"
  using assms(2) unfolding randint_def Let_def assms(1) option.case assms(6) assms(7) assms(3)
    sum.case fst_conv snd_conv assms(4) assms(5) assms(8) assms(9)
  by (auto simp: o_def)

lemma randint_65537: "randint (0, 0) [1] 0 65537 Int32 = Inr \<lparr>shape = [1], ravel = [23589]\<rparr>"
proof -
  have i: "iinfo_bits Int32 = Some 32" "(32::nat) = 32 \<or> (32::nat) = 64"
    by simp_all
  have h: "random_bits (key_value (4146024105, 967050713)) (int 32) [1] = Inr \<lparr>shape = [1], ravel = [2393184043]\<rparr>"
    "random_bits (key_value (2718843009, 1272950319)) (int 32) [1] = Inr \<lparr>shape = [1], ravel = [452556574]\<rparr>"
    using random_bits_subkey1 random_bits_subkey2 by simp_all
  have a: "convert_element_type Int32 0 = 0"
    by (simp add: convert_element_type_def wrap_signed_def)
  have b: "max (convert_element_type Int32 (0 + 1)) (convert_element_type Int32 65537) = 65537"
    by (simp add: convert_element_type_def wrap_signed_def)
  have c: "nat (wrap_unsigned 32 (convert_element_type Int32 (65537 - 0))) = 65537"
    by (simp add: convert_element_type_def wrap_signed_def wrap_unsigned_def)
  have d: "randint_multiplier 32 65537 = 0"
    by (simp add: randint_multiplier_def)
  show ?thesis
    unfolding randint_eval [OF i split_pair_key0 h a b c d]
    by (simp add: convert_element_type_def wrap_signed_def)
qed

lemma randint_int32_max: "randint (0, 0) [1] 2147483647 0 Int32 = Inr \<lparr>shape = [1], ravel = [- 1694927075]\<rparr>"
proof -
  have i: "iinfo_bits Int32 = Some 32" "(32::nat) = 32 \<or> (32::nat) = 64"
    by simp_all
  have h: "random_bits (key_value (4146024105, 967050713)) (int 32) [1] = Inr \<lparr>shape = [1], ravel = [2393184043]\<rparr>"
    "random_bits (key_value (2718843009, 1272950319)) (int 32) [1] = Inr \<lparr>shape = [1], ravel = [452556574]\<rparr>"
    using random_bits_subkey1 random_bits_subkey2 by simp_all
  have a: "convert_element_type Int32 2147483647 = 2147483647"
    by (simp add: convert_element_type_def wrap_signed_def)
  have b: "max (convert_element_type Int32 (2147483647 + 1)) (convert_element_type Int32 0) = 0"
    by (simp add: convert_element_type_def wrap_signed_def)
  have c: "nat (wrap_unsigned 32 (convert_element_type Int32 (0 - 2147483647))) = 2147483649"
    by (simp add: convert_element_type_def wrap_signed_def wrap_unsigned_def)
  have d: "randint_multiplier 32 2147483649 = 0"
    by (simp add: randint_multiplier_def)
  show ?thesis
    unfolding randint_eval [OF i split_pair_key0 h a b c d]
    by (simp add: convert_element_type_def wrap_signed_def)
qed


subsection \<open>The multiplier\<close>

lemma square_mod_small:
  fixes spn :: nat
  assumes "0 < spn" and "spn \<le> 2 ^ h" and "b mod spn = (2 ^ h) mod spn" and "m = b mod spn"
  shows "((m * m) mod 2 ^ (2 * h)) mod spn = 2 ^ (2 * h) mod spn"
proof -
  have "m < spn"
    using assms(1,4) by simp
  then have "m < 2 ^ h"
    using assms(2) by simp
  then have "m * m < 2 ^ h * 2 ^ h"
    by (intro mult_strict_mono) simp_all
  then have "m * m < 2 ^ (2 * h)"
    by (simp add: power_add mult_2)
  then have "((m * m) mod 2 ^ (2 * h)) mod spn = (m * m) mod spn"
    by simp
  also have "\<dots> = ((2 ^ h mod spn) * (2 ^ h mod spn)) mod spn"
    by (simp add: assms(3,4))
  also have "\<dots> = (2 ^ h * 2 ^ h) mod spn"
    by (simp add: mod_mult_eq)
  finally show ?thesis
    by (simp add: power_add mult_2)
qed

lemma randint_multiplier_exact:
  assumes n: "n = 32 \<or> n = 64" and spn: "0 < spn" "spn \<le> 2 ^ (n div 2)"
  shows "randint_multiplier n spn = 2 ^ n mod spn"
proof -
  define m0 :: nat where "m0 = 2 ^ 16 mod spn"
  define m1 where "m1 = ((m0 * m0) mod 2 ^ n) mod spn"
  have r: "randint_multiplier n spn = (if n = 64 then ((m1 * m1) mod 2 ^ n) mod spn else m1)"
    by (simp add: randint_multiplier_def Let_def m0_def m1_def)
  from n show ?thesis
  proof
    assume n32: "n = 32"
    then have "spn \<le> 2 ^ 16"
      using spn(2) by simp
    from square_mod_small [OF spn(1) this refl m0_def] have "m1 = 2 ^ 32 mod spn"
      by (simp add: m1_def n32)
    then show ?thesis
      unfolding r by (simp add: n32)
  next
    assume n64: "n = 64"
    then have s32: "spn \<le> 2 ^ 32"
      using spn(2) by simp
    have "m0 \<le> 2 ^ 16"
      unfolding m0_def by (rule mod_less_eq_dividend)
    then have "m0 * m0 \<le> 2 ^ 16 * 2 ^ 16"
      by (intro mult_mono) simp_all
    then have "m0 * m0 < 2 ^ 64"
      by simp
    then have "m1 = (m0 * m0) mod spn"
      by (simp add: m1_def n64)
    also have "\<dots> = (2 ^ 16 * 2 ^ 16) mod spn"
      by (simp add: m0_def mod_mult_eq)
    finally have m1: "m1 = 2 ^ 32 mod spn"
      by simp
    from square_mod_small [OF spn(1) s32 refl m1] show ?thesis
      unfolding r by (simp add: n64)
  qed
qed

text \<open>
  Claim C7 at the int32 range \<open>[0, 65537)\<close>. The span is \<open>65537\<close>, above \<open>2 ^ 16\<close>:
  \<open>2 ^ 16 mod span\<close> is \<open>2 ^ 16\<close>, its square wraps around to \<open>0\<close> in uint32, and the
  multiplier is \<open>0\<close>, not \<open>2 ^ 32 mod span = 1\<close>. With key \<open>(0, 0)\<close> and shape \<open>(1,)\<close>
  the sampler returns \<open>lower_bits mod span = 23589\<close>, where the formula with the
  multiplier \<open>2 ^ 32 mod span\<close> gives \<open>58540\<close>. For spans up to \<open>2 ^ 16\<close> (up to
  \<open>2 ^ 32\<close> for 64 bits) the multiplier is \<open>2 ^ nbits mod span\<close>
  (\<open>randint_multiplier_exact\<close>).
\<close>

theorem randint_multiplier_overflow:
  "randint_multiplier 32 65537 = 0 \<and> (2 :: nat) ^ 32 mod 65537 = 1
   \<and> split_pair (0, 0) = Inr ((4146024105, 967050713), (2718843009, 1272950319))
   \<and> random_bits (key_value (4146024105, 967050713)) 32 [1] = Inr \<lparr>shape = [1], ravel = [2393184043]\<rparr>
   \<and> random_bits (key_value (2718843009, 1272950319)) 32 [1] = Inr \<lparr>shape = [1], ravel = [452556574]\<rparr>
   \<and> randint (0, 0) [1] 0 65537 Int32 = Inr \<lparr>shape = [1], ravel = [23589]\<rparr>
   \<and> 0 + int (((2393184043 mod 65537) * (2 ^ 32 mod 65537) + 452556574 mod 65537) mod 65537) = 58540"
proof -
  have "randint_multiplier 32 65537 = 0"
    by (simp add: randint_multiplier_def)
  moreover have "(2 :: nat) ^ 32 mod 65537 = 1"
    by simp
  moreover have "0 + int (((2393184043 mod 65537) * (2 ^ 32 mod 65537) + 452556574 mod 65537) mod 65537) = 58540"
    by simp
  ultimately show ?thesis
    using split_pair_key0 random_bits_subkey1 random_bits_subkey2 randint_65537 by simp
qed

text \<open>
  Claim C6 at \<open>minval = 2147483647\<close>, the largest int32, and \<open>maxval = 0\<close>: in int32,
  \<open>minval + 1\<close> wraps around to the least value, the maximum with \<open>maxval\<close> is
  \<open>maxval\<close> itself, and the span is \<open>2 ^ 31 + 1\<close> instead of \<open>1\<close>. With key
  \<open>(0, 0)\<close> and shape \<open>(1,)\<close> the element returned is not \<open>minval\<close>. For every
  \<open>minval\<close> below the largest value of the dtype the elements lie in
  \<open>[minval, max (minval + 1) maxval)\<close> (\<open>randint_range\<close>), equal \<open>minval\<close> when
  \<open>maxval \<le> minval\<close> (\<open>randint_degenerate\<close>), and no bound makes the sampler fail
  (\<open>randint_total\<close>).
\<close>

theorem randint_at_dtype_max:
  "convert_element_type Int32 (2147483647 + 1) = - 2147483648
   \<and> randint (0, 0) [1] 2147483647 0 Int32 = Inr \<lparr>shape = [1], ravel = [- 1694927075]\<rparr>"
proof -
  have "convert_element_type Int32 (2147483647 + 1) = - 2147483648"
    by (simp add: convert_element_type_def wrap_signed_def)
  then show ?thesis
    using randint_int32_max by simp
qed

section \<open>Properties of shuffle\<close>

subsection \<open>The number of rounds\<close>

lemma ceil_log_ge: "r \<le> ceil_log r t"
proof (induction r t rule: ceil_log.induct)
  case (1 r t)
  then show ?case
    by (subst ceil_log.simps) (auto simp: Suc_leD)
qed

lemma ceil_log_upper: "t \<le> 4294967295 ^ ceil_log r t"
proof (induction r t rule: ceil_log.induct)
  case (1 r t)
  then show ?case
    by (subst ceil_log.simps) (auto simp: not_less)
qed

lemma ceil_log_lower:
  "r < ceil_log r t \<Longrightarrow> 4294967295 ^ (ceil_log r t - 1) < t"
proof (induction r t rule: ceil_log.induct)
  case (1 r t)
  show ?case
  proof (cases "4294967295 ^ r < t")
    case True
    then have e: "ceil_log r t = ceil_log (Suc r) t"
      by (subst ceil_log.simps) simp
    show ?thesis
    proof (cases "Suc r < ceil_log (Suc r) t")
      case True
      with "1.IH" \<open>4294967295 ^ r < t\<close> show ?thesis
        by (simp add: e)
    next
      case False
      then have "ceil_log (Suc r) t = Suc r"
        using ceil_log_ge [of "Suc r" t] by simp
      with \<open>4294967295 ^ r < t\<close> show ?thesis
        by (simp add: e)
    qed
  next
    case False
    then have "ceil_log r t = r"
      by (subst ceil_log.simps) simp
    with "1.prems" show ?thesis
      by simp
  qed
qed

lemma num_rounds_ceiling:
  assumes "0 < sz"
  shows "num_rounds sz = Inr (nat \<lceil>3 * ln (real sz) / ln 4294967295\<rceil>)"
proof -
  define r where "r = ceil_log 0 (sz ^ 3)"
  define q where "q = 3 * ln (real sz) / ln 4294967295"
  have lb: "0 < ln (4294967295::real)"
    by simp
  have l3: "ln (real (sz ^ 3)) = 3 * ln (real sz)"
    using assms by (simp add: ln_realpow)
  have up: "sz ^ 3 \<le> 4294967295 ^ r"
    unfolding r_def by (rule ceil_log_upper)
  then have "real (sz ^ 3) \<le> 4294967295 ^ r"
    by (metis of_nat_le_iff of_nat_numeral of_nat_power)
  then have "ln (real (sz ^ 3)) \<le> ln (4294967295 ^ r)"
    using assms by (subst ln_le_cancel_iff) simp_all
  then have "3 * ln (real sz) \<le> real r * ln 4294967295"
    by (simp add: l3 ln_realpow)
  then have qr: "q \<le> real r"
    using lb by (simp add: q_def pos_divide_le_eq)
  have "real r - 1 < q"
  proof (cases "0 < r")
    case True
    then have "4294967295 ^ (r - 1) < sz ^ 3"
      unfolding r_def by (rule ceil_log_lower)
    then have "(4294967295::real) ^ (r - 1) < real (sz ^ 3)"
      by (metis of_nat_less_iff of_nat_numeral of_nat_power)
    then have "ln ((4294967295::real) ^ (r - 1)) < ln (real (sz ^ 3))"
      by (subst ln_less_cancel_iff) (use assms in simp_all)
    then have "real (r - 1) * ln 4294967295 < 3 * ln (real sz)"
      by (simp add: l3 ln_realpow)
    then have "real (r - 1) < q"
      using lb by (simp add: q_def pos_less_divide_eq)
    then show ?thesis
      using True by (simp add: of_nat_diff)
  next
    case False
    have "0 \<le> ln (real sz)"
      using assms by simp
    then have "0 \<le> q"
      using lb by (simp add: q_def)
    then show ?thesis
      using False by simp
  qed
  with qr have "\<lceil>q\<rceil> = int r"
    by (intro ceiling_unique) simp_all
  then show ?thesis
    using assms by (simp add: num_rounds_def r_def [symmetric] q_def [symmetric])
qed


subsection \<open>Lanes and the sort along an axis\<close>

lemma lane_index:
  fixes n inner out i j :: nat
  assumes "i < n" and "j < inner"
  shows "((out * n + i) * inner + j) mod inner = j"
    and "(((out * n + i) * inner + j) div inner) mod n = i"
    and "((out * n + i) * inner + j) div (n * inner) = out"
proof -
  have d: "((out * n + i) * inner + j) div inner = out * n + i"
    using assms(2) by simp
  show "((out * n + i) * inner + j) mod inner = j"
    using assms(2) by simp
  show "(((out * n + i) * inner + j) div inner) mod n = i"
    using assms(1) by (simp add: d)
  have "((out * n + i) * inner + j) div (n * inner) = (((out * n + i) * inner + j) div inner) div n"
    by (simp add: div_mult2_eq mult.commute)
  also have "\<dots> = out"
    using assms(1) by (simp add: d)
  finally show "((out * n + i) * inner + j) div (n * inner) = out" .
qed

lemma lane_index_less:
  fixes n inner outer out i j :: nat
  assumes "out < outer" and "i < n" and "j < inner"
  shows "(out * n + i) * inner + j < outer * n * inner"
proof -
  have "out * n + i < outer * n"
  proof -
    have "out * n + i < out * n + n"
      using assms(2) by simp
    also have "\<dots> = Suc out * n"
      by simp
    also have "\<dots> \<le> outer * n"
      using assms(1) by (intro mult_le_mono1) simp
    finally show ?thesis .
  qed
  then have "Suc (out * n + i) * inner \<le> outer * n * inner"
    by (intro mult_le_mono1) simp
  then show ?thesis
    using assms(3) by simp
qed

lemma length_lane [simp]: "length (lane n inner xs out j) = n"
  by (simp add: lane_def)

lemma length_sort_lane [simp]: "length (sort_lane n inner ks vs out j) = n"
  by (simp add: sort_lane_def)

lemma length_sort_along [simp]: "length (sort_along n inner ks vs) = length vs"
  by (simp add: sort_along_def)

lemma lane_sort_along:
  assumes len: "length vs = outer * n * inner" and o: "out < outer" and j: "j < inner"
  shows "lane n inner (sort_along n inner ks vs) out j = sort_lane n inner ks vs out j"
proof (rule nth_equalityI)
  show "length (lane n inner (sort_along n inner ks vs) out j) = length (sort_lane n inner ks vs out j)"
    by simp
next
  fix i
  assume "i < length (lane n inner (sort_along n inner ks vs) out j)"
  then have i: "i < n" by simp
  have p: "(out * n + i) * inner + j < length vs"
    unfolding len using o i j by (rule lane_index_less)
  have "lane n inner (sort_along n inner ks vs) out j ! i
        = sort_along n inner ks vs ! ((out * n + i) * inner + j)"
    using i by (simp add: lane_def)
  also have "\<dots> = sort_lane n inner ks vs (((out * n + i) * inner + j) div (n * inner))
                       (((out * n + i) * inner + j) mod inner)
                     ! ((((out * n + i) * inner + j) div inner) mod n)"
    using p unfolding sort_along_def by (simp only: nth_map_upt add_0 length_upt diff_zero)
  also have "\<dots> = sort_lane n inner ks vs out j ! i"
    by (simp only: lane_index [OF i j])
  finally show "lane n inner (sort_along n inner ks vs) out j ! i = sort_lane n inner ks vs out j ! i" .
qed

lemma lane_map:
  assumes len: "length xs = outer * n * inner" and o: "out < outer" and j: "j < inner"
  shows "lane n inner (map f xs) out j = map f (lane n inner xs out j)"
proof -
  have "(out * n + i) * inner + j < length xs" if "i < n" for i
    unfolding len using o that j by (rule lane_index_less)
  then show ?thesis
    by (simp add: lane_def)
qed

text \<open>The sort of one lane orders it by key and is stable: elements of equal key keep
  their order.\<close>

lemma sort_lane_sorted: "sorted (map fst (sort_lane n inner ks vs out j))"
  by (simp add: sort_lane_def)

lemma sort_lane_stable:
  "filter (\<lambda>p. fst p = q) (sort_lane n inner ks vs out j)
   = filter (\<lambda>p. fst p = q) (zip (lane n inner ks out j) (lane n inner vs out j))"
  by (simp add: sort_lane_def sort_key_stable)

lemma mset_sort_lane:
  "mset (map snd (sort_lane n inner ks vs out j)) = mset (lane n inner vs out j)"
proof -
  have "mset (map snd (sort_lane n inner ks vs out j))
        = image_mset snd (mset (zip (lane n inner ks out j) (lane n inner vs out j)))"
    by (simp add: sort_lane_def)
  also have "\<dots> = mset (map snd (zip (lane n inner ks out j) (lane n inner vs out j)))"
    by (simp only: mset_map)
  also have "map snd (zip (lane n inner ks out j) (lane n inner vs out j)) = lane n inner vs out j"
    by (rule map_snd_zip) simp
  finally show ?thesis .
qed

lemma prod_list_axis:
  assumes "a < length shp"
  shows "prod_list shp = axis_outer shp a * axis_len shp a * axis_inner shp a"
proof -
  have "shp = take a shp @ shp ! a # drop (Suc a) shp"
    using assms by (rule id_take_nth_drop)
  then have "prod_list shp = prod_list (take a shp @ shp ! a # drop (Suc a) shp)"
    by simp
  then show ?thesis
    by (simp add: axis_outer_def axis_len_def axis_inner_def mult.assoc)
qed

lemma lax_sort_key_val_lanes:
  assumes wf: "wf_array vals" and sh: "shape keys = shape vals"
    and len: "length (ravel keys) = length (ravel vals)" and a: "a < length (shape vals)"
  shows "\<exists>ks vs. lax_sort_key_val keys vals a = Inr (ks, vs) \<and> shape vs = shape vals \<and> wf_array vs
     \<and> (\<forall>out < axis_outer (shape vals) a. \<forall>j < axis_inner (shape vals) a.
           mset (lane (axis_len (shape vals) a) (axis_inner (shape vals) a) (ravel vs) out j)
           = mset (lane (axis_len (shape vals) a) (axis_inner (shape vals) a) (ravel vals) out j))"
proof -
  define n where "n = axis_len (shape vals) a"
  define inner where "inner = axis_inner (shape vals) a"
  define outer where "outer = axis_outer (shape vals) a"
  define kv where "kv = sort_along n inner (ravel keys) (ravel vals)"
  have l: "length (ravel vals) = outer * n * inner"
    using wf prod_list_axis [OF a] by (simp add: wf_array_def n_def inner_def outer_def)
  have r: "lax_sort_key_val keys vals a
           = Inr (\<lparr>shape = shape keys, ravel = map fst kv\<rparr>, \<lparr>shape = shape vals, ravel = map snd kv\<rparr>)"
    using sh len a by (simp add: lax_sort_key_val_def Let_def kv_def n_def inner_def)
  have lk: "length kv = outer * n * inner"
    by (simp add: kv_def l)
  have "mset (lane n inner (map snd kv) out j) = mset (lane n inner (ravel vals) out j)"
    if "out < outer" "j < inner" for out j
  proof -
    have "lane n inner (map snd kv) out j = map snd (lane n inner kv out j)"
      using lk that by (rule lane_map)
    also have "lane n inner kv out j = sort_lane n inner (ravel keys) (ravel vals) out j"
      unfolding kv_def using l that by (rule lane_sort_along)
    finally show ?thesis
      by (simp only: mset_sort_lane)
  qed
  moreover have "wf_array \<lparr>shape = shape vals, ravel = map snd kv\<rparr>"
    using wf by (simp add: wf_array_def kv_def)
  ultimately show ?thesis
    unfolding r n_def [symmetric] inner_def [symmetric] outer_def [symmetric] by simp
qed


subsection \<open>The rounds\<close>

lemma random_bits_sort_keys:
  assumes "prod_list shp < 4294967295"
  shows "\<exists>b. random_bits (key_value kk) 32 shp = Inr b \<and> shape b = shp \<and> length (ravel b) = prod_list shp"
proof -
  have bw: "(32::int) = 32 \<or> (32::int) = 64" by simp
  have sm: "(32 div 32) * int (prod_list shp) < 4294967295"
    using assms by simp
  show ?thesis
    using random_bits_small [OF _ bw sm, of "key_value kk" "unat (fst kk)" "unat (snd kk)"]
    by (simp add: key_value_def length_spec_threefry)
qed

lemma shuffle_rounds_lanes:
  assumes "wf_array x" and "asize x < 4294967295" and "axis < length (shape x)"
  shows "\<exists>y. shuffle_rounds r k x axis = Inr y \<and> shape y = shape x \<and> wf_array y
     \<and> (\<forall>out < axis_outer (shape x) axis. \<forall>j < axis_inner (shape x) axis.
           mset (lane (axis_len (shape x) axis) (axis_inner (shape x) axis) (ravel y) out j)
           = mset (lane (axis_len (shape x) axis) (axis_inner (shape x) axis) (ravel x) out j))"
  using assms
proof (induction r arbitrary: k x)
  case 0
  then show ?case by simp
next
  case (Suc r)
  obtain k1 k2 where ks: "split_pair k = Inr (k1, k2)"
    using split_pair_ok by blast
  from Suc.prems(2) obtain b where b: "random_bits (key_value k2) 32 (shape x) = Inr b"
    "shape b = shape x" "length (ravel b) = prod_list (shape x)"
    using random_bits_sort_keys [of "shape x" k2] by (auto simp: asize_def)
  have len: "length (ravel b) = length (ravel x)"
    using b(3) Suc.prems(1) by (simp add: wf_array_def)
  from lax_sort_key_val_lanes [OF Suc.prems(1) b(2) len Suc.prems(3)]
  obtain ks' vs where s: "lax_sort_key_val b x axis = Inr (ks', vs)" and sh: "shape vs = shape x"
    and wf: "wf_array vs"
    and lanes: "\<forall>out < axis_outer (shape x) axis. \<forall>j < axis_inner (shape x) axis.
           mset (lane (axis_len (shape x) axis) (axis_inner (shape x) axis) (ravel vs) out j)
           = mset (lane (axis_len (shape x) axis) (axis_inner (shape x) axis) (ravel x) out j)"
    by blast
  have "asize vs < 4294967295" "axis < length (shape vs)"
    using Suc.prems(2,3) by (simp_all add: sh asize_def)
  from Suc.IH [OF wf this, of k1] obtain y where y: "shuffle_rounds r k1 vs axis = Inr y"
    "shape y = shape vs" "wf_array y"
    and ylanes: "\<forall>out < axis_outer (shape vs) axis. \<forall>j < axis_inner (shape vs) axis.
           mset (lane (axis_len (shape vs) axis) (axis_inner (shape vs) axis) (ravel y) out j)
           = mset (lane (axis_len (shape vs) axis) (axis_inner (shape vs) axis) (ravel vs) out j)"
    by blast
  have "shuffle_rounds (Suc r) k x axis = Inr y"
    by (simp add: ks b(1) s y(1))
  then show ?case
    using y(2,3) ylanes lanes by (simp add: sh)
qed

text \<open>The lanes along an axis partition the array: arrays whose lanes agree as multisets
  agree as multisets.\<close>

lemma mset_concat_cong:
  assumes "\<And>a. a \<in> set L \<Longrightarrow> mset (f a) = mset (g a)"
  shows "mset (concat (map f L)) = mset (concat (map g L))"
  using assms by (induction L) auto

lemma mset_concat_append:
  "mset (concat (map (\<lambda>b. f b @ g b) L)) = mset (concat (map f L)) + mset (concat (map g L))"
  by (induction L) auto

lemma upt_block: "map (\<lambda>b. m * k + b) [0..<k] = [m * k..<m * k + k]"
  using map_add_upt [of "m * k" k] by (simp add: add.commute)

lemma upt_rows:
  "mset (concat (map (\<lambda>a. map (\<lambda>b. a * k + b) [0..<k]) [0..<m])) = mset [0..<m * k]"
proof (induction m)
  case 0
  show ?case by simp
next
  case (Suc m)
  have "[0..<Suc m * k] = [0..<m * k] @ [m * k..<m * k + k]"
    using upt_add_eq_append [of 0 "m * k" k] by (simp add: add.commute)
  then show ?case
    using Suc by (simp add: upt_block)
qed

lemma upt_cols:
  "mset (concat (map (\<lambda>b. map (\<lambda>a. a * k + b) [0..<m]) [0..<k])) = mset [0..<m * k]"
proof (induction m)
  case 0
  show ?case by (induction k) simp_all
next
  case (Suc m)
  have u: "[0..<Suc m * k] = [0..<m * k] @ [m * k..<m * k + k]"
    using upt_add_eq_append [of 0 "m * k" k] by (simp add: add.commute)
  have "mset (concat (map (\<lambda>b. map (\<lambda>a. a * k + b) [0..<Suc m]) [0..<k]))
        = mset (concat (map (\<lambda>b. map (\<lambda>a. a * k + b) [0..<m] @ [m * k + b]) [0..<k]))"
    by simp
  also have "\<dots> = mset (concat (map (\<lambda>b. map (\<lambda>a. a * k + b) [0..<m]) [0..<k]))
                  + mset (concat (map (\<lambda>b. [m * k + b]) [0..<k]))"
    by (rule mset_concat_append)
  also have "concat (map (\<lambda>b. [m * k + b]) [0..<k]) = map (\<lambda>b. m * k + b) [0..<k]"
    by (induction k) simp_all
  finally have F: "mset (concat (map (\<lambda>b. map (\<lambda>a. a * k + b) [0..<Suc m]) [0..<k]))
        = mset (concat (map (\<lambda>b. map (\<lambda>a. a * k + b) [0..<m]) [0..<k]))
          + mset (map (\<lambda>b. m * k + b) [0..<k])" .
  show ?case
    unfolding F Suc upt_block u mset_append by (rule refl)
qed

lemma lane_indices:
  fixes n inner outer :: nat
  shows "mset (concat (map (\<lambda>out. concat (map (\<lambda>j. map (\<lambda>i. (out * n + i) * inner + j) [0..<n])
                 [0..<inner])) [0..<outer]))
         = mset [0..<outer * n * inner]"
proof -
  have blk: "mset (concat (map (\<lambda>j. map (\<lambda>i. (out * n + i) * inner + j) [0..<n]) [0..<inner]))
        = mset (map (\<lambda>b. out * (n * inner) + b) [0..<n * inner])" for out
  proof -
    have "concat (map (\<lambda>j. map (\<lambda>i. (out * n + i) * inner + j) [0..<n]) [0..<inner])
          = map (\<lambda>b. out * (n * inner) + b)
              (concat (map (\<lambda>j. map (\<lambda>i. i * inner + j) [0..<n]) [0..<inner]))"
      by (simp add: map_concat comp_def algebra_simps)
    then show ?thesis
      using upt_cols [of inner n] by (simp only: mset_map)
  qed
  have "mset (concat (map (\<lambda>out. concat (map (\<lambda>j. map (\<lambda>i. (out * n + i) * inner + j) [0..<n])
                 [0..<inner])) [0..<outer]))
        = mset (concat (map (\<lambda>out. map (\<lambda>b. out * (n * inner) + b) [0..<n * inner]) [0..<outer]))"
    by (rule mset_concat_cong) (rule blk)
  also have "\<dots> = mset [0..<outer * (n * inner)]"
    by (rule upt_rows)
  finally show ?thesis
    by (simp add: mult.assoc)
qed

lemma mset_lanes:
  fixes n inner outer :: nat
  assumes "length xs = outer * n * inner"
  shows "mset xs = mset (concat (map (\<lambda>out. concat (map (\<lambda>j. lane n inner xs out j) [0..<inner]))
                           [0..<outer]))"
proof -
  have "concat (map (\<lambda>out. concat (map (\<lambda>j. lane n inner xs out j) [0..<inner])) [0..<outer])
        = map ((!) xs) (concat (map (\<lambda>out. concat (map (\<lambda>j. map (\<lambda>i. (out * n + i) * inner + j) [0..<n])
                 [0..<inner])) [0..<outer]))"
    by (simp add: map_concat comp_def lane_def)
  then have "mset (concat (map (\<lambda>out. concat (map (\<lambda>j. lane n inner xs out j) [0..<inner])) [0..<outer]))
        = image_mset ((!) xs) (mset [0..<outer * n * inner])"
    by (simp only: mset_map lane_indices)
  also have "\<dots> = mset (map ((!) xs) [0..<length xs])"
    by (simp only: mset_map assms)
  also have "\<dots> = mset xs"
    by (simp only: map_nth)
  finally show ?thesis ..
qed

lemma mset_of_lanes:
  fixes n inner outer :: nat
  assumes "length xs = outer * n * inner" and "length ys = outer * n * inner"
    and "\<forall>out < outer. \<forall>j < inner. mset (lane n inner ys out j) = mset (lane n inner xs out j)"
  shows "mset ys = mset xs"
proof -
  have "mset (concat (map (\<lambda>out. concat (map (\<lambda>j. lane n inner ys out j) [0..<inner])) [0..<outer]))
        = mset (concat (map (\<lambda>out. concat (map (\<lambda>j. lane n inner xs out j) [0..<inner])) [0..<outer]))"
  proof (rule mset_concat_cong)
    fix out
    assume "out \<in> set [0..<outer]"
    then have o: "out < outer" by simp
    show "mset (concat (map (\<lambda>j. lane n inner ys out j) [0..<inner]))
          = mset (concat (map (\<lambda>j. lane n inner xs out j) [0..<inner]))"
    proof (rule mset_concat_cong)
      fix j
      assume "j \<in> set [0..<inner]"
      then show "mset (lane n inner ys out j) = mset (lane n inner xs out j)"
        using assms(3) o by simp
    qed
  qed
  then show ?thesis
    using mset_lanes [OF assms(1)] mset_lanes [OF assms(2)] by simp
qed

lemma shuffle_empty:
  "shuffle k \<lparr>shape = [0], ravel = []\<rparr> 0 = Inl (OverflowError ''cannot convert float infinity to integer'')"
  by (simp add: shuffle_def num_rounds_def asize_def)

text \<open>
  Claim C9, as the source has it. For an array \<open>x\<close> with at least one and fewer than
  \<open>2 ^ 32 - 1\<close> elements and an axis of \<open>x\<close>, \<open>shuffle\<close> returns an array of the shape of
  \<open>x\<close> in which every lane along the axis holds the elements of the same lane of \<open>x\<close>,
  each as often as there; so the result holds the elements of \<open>x\<close>, each as often as \<open>x\<close>. The number of
  rounds is the ceiling of \<open>3 * ln size / ln (2 ^ 32 - 1)\<close>; each round splits the key,
  draws 32-bit sort keys of the shape of \<open>x\<close> from the fresh subkey and sorts stably along
  the axis. \<open>shuffle\<close> is a function of the key, the array and the axis, so the same
  arguments give the same permutation.
\<close>

theorem shuffle_permutes_lanes:
  assumes "wf_array x" and "0 < asize x" and "asize x < 4294967295" and "axis < length (shape x)"
  shows "\<exists>y. shuffle k x axis = Inr y \<and> shape y = shape x \<and> wf_array y
     \<and> (\<forall>out < axis_outer (shape x) axis. \<forall>j < axis_inner (shape x) axis.
           mset (lane (axis_len (shape x) axis) (axis_inner (shape x) axis) (ravel y) out j)
           = mset (lane (axis_len (shape x) axis) (axis_inner (shape x) axis) (ravel x) out j))
     \<and> mset (ravel y) = mset (ravel x)
     \<and> shuffle k x axis
         = shuffle_rounds (nat \<lceil>3 * ln (real (asize x)) / ln 4294967295\<rceil>) k x axis"
proof -
  define r where "r = nat \<lceil>3 * ln (real (asize x)) / ln 4294967295\<rceil>"
  have sh: "shuffle k x axis = shuffle_rounds r k x axis"
    using assms(2) by (simp add: shuffle_def num_rounds_ceiling r_def)
  from shuffle_rounds_lanes [OF assms(1,3,4), of r k] obtain y
    where y: "shuffle_rounds r k x axis = Inr y" "shape y = shape x" "wf_array y"
      and lanes: "\<forall>out < axis_outer (shape x) axis. \<forall>j < axis_inner (shape x) axis.
           mset (lane (axis_len (shape x) axis) (axis_inner (shape x) axis) (ravel y) out j)
           = mset (lane (axis_len (shape x) axis) (axis_inner (shape x) axis) (ravel x) out j)"
    by blast
  have lx: "length (ravel x)
            = axis_outer (shape x) axis * axis_len (shape x) axis * axis_inner (shape x) axis"
    using assms(1) prod_list_axis [OF assms(4)] by (simp add: wf_array_def)
  have ly: "length (ravel y)
            = axis_outer (shape x) axis * axis_len (shape x) axis * axis_inner (shape x) axis"
    using y(2,3) prod_list_axis [OF assms(4)] by (simp add: wf_array_def)
  have one: "mset (ravel y) = mset (ravel x)"
    using lx ly lanes by (rule mset_of_lanes)
  from y lanes one show ?thesis
    unfolding sh r_def [symmetric] by blast
qed

theorem shuffle_permutes_lanes_witness:
  "wf_array \<lparr>shape = [2, 3], ravel = [10, 11, 12, 13, 14, 15 :: int]\<rparr>
   \<and> (\<exists>y. shuffle (0, 0) \<lparr>shape = [2, 3], ravel = [10, 11, 12, 13, 14, 15 :: int]\<rparr> 1 = Inr y
          \<and> shape y = [2, 3]
          \<and> mset (lane 3 1 (ravel y) 0 0) = mset [10, 11, 12]
          \<and> mset (lane 3 1 (ravel y) 1 0) = mset [13, 14, 15]
          \<and> mset (ravel y) = mset [10, 11, 12, 13, 14, 15])"
proof -
  let ?x = "\<lparr>shape = [2, 3], ravel = [10, 11, 12, 13, 14, 15 :: int]\<rparr>"
  have w: "wf_array ?x"
    by (simp add: wf_array_def)
  have p: "0 < asize ?x" "asize ?x < 4294967295" "1 < length (shape ?x)"
    by (simp_all add: asize_def)
  from shuffle_permutes_lanes [OF w p, of "(0, 0)"] obtain y
    where y: "shuffle (0, 0) ?x 1 = Inr y" "shape y = [2, 3]"
      and lanes: "\<forall>out < axis_outer (shape ?x) 1. \<forall>j < axis_inner (shape ?x) 1.
           mset (lane (axis_len (shape ?x) 1) (axis_inner (shape ?x) 1) (ravel y) out j)
           = mset (lane (axis_len (shape ?x) 1) (axis_inner (shape ?x) 1) (ravel ?x) out j)"
      and m: "mset (ravel y) = mset [10, 11, 12, 13, 14, 15]"
    by auto
  have ax: "axis_outer (shape ?x) 1 = 2" "axis_inner (shape ?x) 1 = 1" "axis_len (shape ?x) 1 = 3"
    by (simp_all add: axis_outer_def axis_inner_def axis_len_def)
  have l0: "lane 3 1 (ravel ?x) 0 0 = [10, 11, 12]" and l1: "lane 3 1 (ravel ?x) 1 0 = [13, 14, 15]"
    by (simp_all add: lane_def upt_rec)
  from lanes have "mset (lane 3 1 (ravel y) 0 0) = mset (lane 3 1 (ravel ?x) 0 0)"
    and "mset (lane 3 1 (ravel y) 1 0) = mset (lane 3 1 (ravel ?x) 1 0)"
    unfolding ax by simp_all
  with w y m show ?thesis
    unfolding l0 l1 by blast
qed

text \<open>
  Claim C9 as stated, for every array, fails on an array of \<open>2 ^ 32\<close> elements: four
  rounds are due, and the first request for sort keys is refused by the bit extraction.
  (On the empty array the number of rounds cannot be computed: \<open>shuffle_empty\<close>.)
\<close>

theorem shuffle_capacity_counterexample:
  "wf_array \<lparr>shape = [4294967296], ravel = replicate 4294967296 (0 :: int)\<rparr>
   \<and> shuffle (0, 0) \<lparr>shape = [4294967296], ravel = replicate 4294967296 (0 :: int)\<rparr> 0
       = Inl (TypeError ''requesting more random bits than a single call provides.'')"
proof -
  let ?x = "\<lparr>shape = [4294967296], ravel = replicate 4294967296 (0 :: int)\<rparr>"
  have w: "wf_array ?x"
    by (simp add: wf_array_def)
  have "ceil_log 0 (4294967296 ^ 3) = 4"
    by (simp add: ceil_log.simps)
  then have n: "num_rounds (asize ?x) = Inr (Suc 3)"
    by (simp add: num_rounds_def asize_def)
  have b: "random_bits (key_value kk) 32 [4294967296]
           = Inl (TypeError ''requesting more random bits than a single call provides.'')" for kk
    by (simp add: random_bits_def key_value_def onp_prod_def uint32_max_def)
  have "shuffle_rounds (Suc 3) (0, 0) ?x 0
        = Inl (TypeError ''requesting more random bits than a single call provides.'')"
    by (simp only: shuffle_rounds.simps split_pair_key0 sum.case snd_conv ndarray.select_convs b)
  then have "shuffle (0, 0) ?x 0 = Inl (TypeError ''requesting more random bits than a single call provides.'')"
    unfolding shuffle_def n by (simp only: sum.case)
  with w show ?thesis ..
qed

section \<open>Properties of the uniform sampler\<close>



















section \<open>Properties of the gamma sampler\<close>

subsection \<open>The loop\<close>








subsection \<open>A run of the loop that accepts its first proposal\<close>











subsection \<open>The result is never zero\<close>





end
